theory Spec2Isabelle
  imports Main "HOL-Library.Char_ord" "HOL-Library.List_Lexorder" "HOL-Library.AList"
    "HOL-Library.Sublist"
begin

section \<open>Strings and the regular expressions of the deployer\<close>

text \<open>
  Python strings are modelled as \<open>string\<close>, one \<open>char\<close> per code point below 256.
  On that range \<open>str.isspace\<close>, which is also what \<open>\s\<close> matches and what
  \<open>str.strip()\<close> removes, holds for the code points 9 to 13, 28 to 32, 133 and 160;
  \<open>\d\<close> matches the ten ASCII digits only.
\<close>

definition is_space :: "char \<Rightarrow> bool" where
  "is_space c = (c \<in> {CHR 0x09, CHR 0x0A, CHR 0x0B, CHR 0x0C, CHR 0x0D,
                       CHR 0x1C, CHR 0x1D, CHR 0x1E, CHR 0x1F, CHR 0x20,
                       CHR 0x85, CHR 0xA0})"

definition is_digit :: "char \<Rightarrow> bool" where
  "is_digit c = (c \<in> set ''0123456789'')"

definition newline :: char where
  "newline = CHR 0x0A"

text \<open>\<open>s.strip()\<close> and \<open>s.strip('"')\<close>.\<close>

definition strip_chars :: "(char \<Rightarrow> bool) \<Rightarrow> string \<Rightarrow> string" where
  "strip_chars P s = rev (dropWhile P (rev (dropWhile P s)))"

definition py_strip :: "string \<Rightarrow> string" where
  "py_strip s = strip_chars is_space s"

definition strip_quotes :: "string \<Rightarrow> string" where
  "strip_quotes s = strip_chars (\<lambda>c. c = CHR 0x22) s"

text \<open>
  The matchers below follow the backtracking matcher of \<open>re\<close> on the three patterns of
  the source. Every repetition in them is followed by an atom that none of the repeated
  characters matches (or by \<open>$\<close>), so the greedy run is the only one that can succeed
  and each matcher is deterministic. A matcher returns the unconsumed rest of the input.
\<close>

definition run1 :: "(char \<Rightarrow> bool) \<Rightarrow> string \<Rightarrow> string option" where
  "run1 P s = (if takeWhile P s = [] then None else Some (dropWhile P s))"

definition expect :: "char \<Rightarrow> string \<Rightarrow> string option" where
  "expect c s = (case s of [] \<Rightarrow> None | x # r \<Rightarrow> if x = c then Some r else None)"

text \<open>
  \<open>$\<close> without \<open>re.MULTILINE\<close>: at the end of the string, or just before a newline
  that is the last character. The newline is not consumed.
\<close>

definition at_dollar :: "string \<Rightarrow> string option" where
  "at_dollar s = (if s = [] \<or> s = [newline] then Some s else None)"

text \<open>\<open>\d+\.\d+\.\d+\<close>\<close>

definition match_triple :: "string \<Rightarrow> string option" where
  "match_triple s =
     Option.bind (run1 is_digit s) (\<lambda>r1.
     Option.bind (expect CHR ''.'' r1) (\<lambda>r2.
     Option.bind (run1 is_digit r2) (\<lambda>r3.
     Option.bind (expect CHR ''.'' r3) (\<lambda>r4.
     run1 is_digit r4))))"

text \<open>\<open>re.match(r'^\d+\.\d+\.\d+$', s)\<close> as a truth value.\<close>

definition match_version :: "string \<Rightarrow> bool" where
  "match_version s = (Option.bind (match_triple s) at_dollar \<noteq> None)"

text \<open>
  \<open>\s+v\d+\.\d+\.\d+.*$\<close> tried at the start of \<open>s\<close>; \<open>.\<close> matches everything but
  a newline.
\<close>

definition match_version_suffix :: "string \<Rightarrow> string option" where
  "match_version_suffix s =
     Option.bind (run1 is_space s) (\<lambda>r1.
     Option.bind (expect CHR ''v'' r1) (\<lambda>r2.
     Option.bind (match_triple r2) (\<lambda>r3.
     at_dollar (dropWhile (\<lambda>c. c \<noteq> newline) r3))))"

text \<open>\<open>\s*\([^)]*\)$\<close> tried at the start of \<open>s\<close>.\<close>

definition match_paren_suffix :: "string \<Rightarrow> string option" where
  "match_paren_suffix s =
     Option.bind (expect CHR ''('' (dropWhile is_space s)) (\<lambda>r1.
     Option.bind (expect CHR '')'' (dropWhile (\<lambda>c. c \<noteq> CHR '')'') r1)) at_dollar)"

text \<open>
  \<open>re.sub(pattern, '', s)\<close> for a pattern that matches no empty string: scan from the
  left; where the pattern matches, drop the match and go on behind it; elsewhere keep the
  character. A match of either pattern of the source consumes at least one character
  (\<open>match_version_suffix_shorter\<close>, \<open>match_paren_suffix_shorter\<close> below), so the
  guard on the length always holds for them; it is what makes the scan terminate for an
  arbitrary matcher.
\<close>

function re_sub :: "(string \<Rightarrow> string option) \<Rightarrow> string \<Rightarrow> string" where
  "re_sub m [] = []"
| "re_sub m (c # cs) =
     (case m (c # cs) of
        Some r \<Rightarrow> if length r \<le> length cs then re_sub m r else c # cs
      | None \<Rightarrow> c # re_sub m cs)"
  by pat_completeness auto
termination
  by (relation "measure (\<lambda>(m, s). length s)") auto

text \<open>
  Lines 212 to 214 of \<open>update_app_version\<close>: remove a version suffix, remove a
  parenthesised suffix, strip, append the new version.
\<close>

definition base_label :: "string \<Rightarrow> string" where
  "base_label current_label =
     py_strip (re_sub match_paren_suffix (re_sub match_version_suffix current_label))"

definition rewrite_label :: "string \<Rightarrow> string \<Rightarrow> string" where
  "rewrite_label version current_label = base_label current_label @ '' v'' @ version"


text \<open>
  The strict version pattern in the specification's words: three non-empty runs of
  digits separated by single dots, and nothing else.
\<close>

definition strict_triple :: "string \<Rightarrow> bool" where
  "strict_triple s =
     (\<exists>a b c. a \<noteq> [] \<and> b \<noteq> [] \<and> c \<noteq> [] \<and> list_all is_digit (a @ b @ c) \<and>
        s = a @ ''.'' @ b @ ''.'' @ c)"

section \<open>Logging\<close>

text \<open>
  \<open>DeploymentLogger\<close> appends one entry per call to the log file. An entry is kept as
  its level and its message; the timestamp and the decoration that \<open>_write_log\<close> adds
  are left out. \<open>bold\<close> and the bare \<open>print\<close> calls write to the console only.
\<close>

datatype level = LOG | SUCCESS | WARNING | ERROR | INFO

type_synonym log = "(level \<times> string) list"

section \<open>Selection and versioning\<close>

text \<open>
  \<open>DeploymentManager.prompt_for_version\<close>; \<open>input_line\<close> is what \<open>input()\<close> returns.
\<close>

definition prompt_for_version :: "string \<Rightarrow> string \<Rightarrow> string \<Rightarrow> string \<times> log" where
  "prompt_for_version app_name current_version input_line =
     (let new_version = py_strip input_line in
      if new_version = [] then (current_version, [])
      else if match_version new_version then (new_version, [])
      else (current_version,
            [(WARNING, ''Invalid version format. Using current version: '' @ current_version)]))"

section \<open>The descriptor format: \<open>configparser.ConfigParser\<close>\<close>

text \<open>
  The source reads and writes \<open>default/app.conf\<close> through a \<open>ConfigParser\<close> with its
  default settings. A file is modelled by the sequence of logical lines that the reader
  tells apart: a section header, an option line (the key as written and the value that
  the reader makes of the text behind the delimiter, continuation lines included), a
  line that it skips (blank or comment), and a line that is none of these. The writer
  emits one header, one option line per key and one blank line per section, each by one
  call of \<open>fp.write\<close>; the value it writes is taken to be read back unchanged, which
  is so for every stripped single-line value.
\<close>

datatype line = Header string | Item string string | Skipped string | Bad string

datatype py_error =
    DuplicateSectionError string
  | DuplicateOptionError string string
  | MissingSectionHeaderError
  | ParsingError
  | NoSectionError string
  | NoOptionError string string
  | InterpolationSyntaxError
  | InterpolationMissingOptionError string
  | InterpolationDepthError
  | ValueError
  | OSError

text \<open>
  The parser state that the source uses: \<open>_defaults\<close> and \<open>_sections\<close>, both
  dictionaries in insertion order.
\<close>

record config =
  defaults :: "(string \<times> string) list"
  sections :: "(string \<times> (string \<times> string) list) list"

definition empty_config :: config where
  "empty_config = \<lparr>defaults = [], sections = []\<rparr>"

definition default_section :: string where
  "default_section = ''DEFAULT''"

text \<open>\<open>optionxform\<close> is \<open>str.lower\<close>; on code points below 256 it moves A to Z and
  the accented capitals 192 to 222 (but not the multiplication sign 215) up by 32.\<close>

definition lower_char :: "char \<Rightarrow> char" where
  "lower_char c =
     (let n = (of_char c :: nat) in
      if (65 \<le> n \<and> n \<le> 90) \<or> (192 \<le> n \<and> n \<le> 222 \<and> n \<noteq> 215)
      then char_of (n + 32) else c)"

definition optionxform :: "string \<Rightarrow> string" where
  "optionxform s = map lower_char s"

definition has_section :: "config \<Rightarrow> string \<Rightarrow> bool" where
  "has_section c s = (s \<in> fst ` set (sections c))"

definition has_option :: "config \<Rightarrow> string \<Rightarrow> string \<Rightarrow> bool" where
  "has_option c s opt =
     (if s = [] \<or> s = default_section then optionxform opt \<in> fst ` set (defaults c)
      else case map_of (sections c) s of
             None \<Rightarrow> False
           | Some items \<Rightarrow>
               optionxform opt \<in> fst ` set items \<or> optionxform opt \<in> fst ` set (defaults c))"

definition add_section :: "config \<Rightarrow> string \<Rightarrow> py_error + config" where
  "add_section c s =
     (if s = default_section then Inl ValueError
      else if s \<in> fst ` set (sections c) then Inl (DuplicateSectionError s)
      else Inr (c\<lparr>sections := sections c @ [(s, [])]\<rparr>))"

text \<open>\<open>sectdict[option] = value\<close> on the dictionary of a section or of the defaults.\<close>

definition store :: "config \<Rightarrow> string \<Rightarrow> string \<Rightarrow> string \<Rightarrow> config" where
  "store c s k v =
     (if s = default_section then c\<lparr>defaults := AList.update k v (defaults c)\<rparr>
      else c\<lparr>sections := AList.map_entry s (AList.update k v) (sections c)\<rparr>)"

text \<open>
  \<open>BasicInterpolation\<close>. \<open>_KEYCRE\<close> is \<open>%\(([^)]+)\)s\<close>; the matcher returns the name
  in the parentheses and the rest of the input.
\<close>

definition match_keycre :: "string \<Rightarrow> (string \<times> string) option" where
  "match_keycre s =
     Option.bind (expect CHR ''%'' s) (\<lambda>r1.
     Option.bind (expect CHR ''('' r1) (\<lambda>r2.
     Option.bind (run1 (\<lambda>c. c \<noteq> CHR '')'') r2) (\<lambda>r3.
     Option.bind (expect CHR '')'' r3) (\<lambda>r4.
     map_option (\<lambda>r5. (takeWhile (\<lambda>c. c \<noteq> CHR '')'') r2, r5)) (expect CHR ''s'' r4)))))"

text \<open>\<open>value.replace('%%', '')\<close>\<close>

fun remove_escaped :: "string \<Rightarrow> string" where
  "remove_escaped (a # b # cs) =
     (if a = CHR ''%'' \<and> b = CHR ''%'' then remove_escaped cs else a # remove_escaped (b # cs))"
| "remove_escaped cs = cs"

text \<open>\<open>before_set\<close> raises \<open>ValueError\<close> where this is false.\<close>

definition before_set_ok :: "string \<Rightarrow> bool" where
  "before_set_ok v =
     (CHR ''%'' \<notin> set (re_sub (\<lambda>s. map_option snd (match_keycre s)) (remove_escaped v)))"

text \<open>\<open>ConfigParser.set\<close>\<close>

definition config_set :: "config \<Rightarrow> string \<Rightarrow> string \<Rightarrow> string \<Rightarrow> py_error + config" where
  "config_set c s opt v =
     (if v \<noteq> [] \<and> \<not> before_set_ok v then Inl ValueError
      else if s = [] \<or> s = default_section then Inr (store c default_section (optionxform opt) v)
      else if s \<notin> fst ` set (sections c) then Inl (NoSectionError s)
      else Inr (store c s (optionxform opt) v))"

text \<open>
  \<open>_unify_values\<close> without \<open>vars\<close>: the section's own dictionary in front of the
  defaults.
\<close>

definition unify_values :: "config \<Rightarrow> string \<Rightarrow> py_error + (string \<Rightarrow> string option)" where
  "unify_values c s =
     (case map_of (sections c) s of
        Some items \<Rightarrow> Inr (map_of (defaults c) ++ map_of items)
      | None \<Rightarrow> if s \<noteq> default_section then Inl (NoSectionError s)
                else Inr (map_of (defaults c)))"

lemma length_dropWhile_le_any: "length (dropWhile P s) \<le> length s"
  by (induction s) auto

lemma match_keycre_shorter: "match_keycre s = Some (var, r) \<Longrightarrow> length r < length s"
proof -
  assume "match_keycre s = Some (var, r)"
  then obtain r1 r2 r3 r4 where "expect CHR ''%'' s = Some r1" "expect CHR ''('' r1 = Some r2"
    "run1 (\<lambda>c. c \<noteq> CHR '')'') r2 = Some r3" "expect CHR '')'' r3 = Some r4"
    "expect CHR ''s'' r4 = Some r"
    unfolding match_keycre_def by (auto simp: bind_eq_Some_conv)
  then have e: "s = CHR ''%'' # r1" "r1 = CHR ''('' # r2" "r3 = dropWhile (\<lambda>c. c \<noteq> CHR '')'') r2"
    "r3 = CHR '')'' # r4" "r4 = CHR ''s'' # r"
    by (auto simp: expect_def run1_def split: list.splits if_splits)
  have "length r3 \<le> length r2" unfolding e(3) by (rule length_dropWhile_le_any)
  moreover have "length r3 = length r + 2" by (simp add: e(4) e(5))
  moreover have "length s = length r2 + 2" by (simp add: e(1) e(2))
  ultimately show ?thesis by linarith
qed

text \<open>
  \<open>_interpolate_some\<close>. The first argument is the number of nested expansions still
  allowed: the source starts at depth 1 and raises \<open>InterpolationDepthError\<close> beyond
  depth 10.
\<close>

function interpolate_some :: "nat \<Rightarrow> (string \<Rightarrow> string option) \<Rightarrow> string \<Rightarrow> py_error + string" where
  "interpolate_some d m rest =
     (let r = dropWhile (\<lambda>c. c \<noteq> CHR ''%'') rest;
          pre = takeWhile (\<lambda>c. c \<noteq> CHR ''%'') rest
      in if r = [] then Inr rest
         else if take 1 (tl r) = ''%'' then
           (case interpolate_some d m (drop 2 r) of
              Inl e \<Rightarrow> Inl e
            | Inr x \<Rightarrow> Inr (pre @ ''%'' @ x))
         else if take 1 (tl r) = ''('' then
           (case match_keycre r of
              None \<Rightarrow> Inl InterpolationSyntaxError
            | Some (var, r') \<Rightarrow>
               (case m (optionxform var) of
                  None \<Rightarrow> Inl (InterpolationMissingOptionError (optionxform var))
                | Some v \<Rightarrow>
                   (case (if CHR ''%'' \<in> set v
                          then (if d = 0 then Inl InterpolationDepthError
                                else interpolate_some (d - 1) m v)
                          else Inr v) of
                      Inl e \<Rightarrow> Inl e
                    | Inr piece \<Rightarrow>
                       (case interpolate_some d m r' of
                          Inl e \<Rightarrow> Inl e
                        | Inr x \<Rightarrow> Inr (pre @ piece @ x)))))
         else Inl InterpolationSyntaxError)"
  by pat_completeness auto
termination
proof (relation "measures [\<lambda>(d, m, rest). d, \<lambda>(d, m, rest). length rest]", goal_cases)
  case 1
  show ?case by simp
next
  case (2 d m rest r pre)
  have "length r \<le> length rest" unfolding 2(1) by (rule length_dropWhile_le_any)
  moreover have "length (drop 2 r) < length r" using 2(3) by (cases r) simp_all
  ultimately have "length (drop 2 r) < length rest" by linarith
  then show ?case by simp
next
  case (3 d m rest r pre x2 var r' v)
  then show ?case by simp
next
  case (4 d m rest r pre x2 var r' v piece)
  have "length r \<le> length rest" unfolding 4(1) by (rule length_dropWhile_le_any)
  moreover have "match_keycre r = Some (var, r')" using 4 by simp
  then have "length r' < length r" by (rule match_keycre_shorter)
  ultimately have "length r' < length rest" by linarith
  then show ?case by simp
qed

declare interpolate_some.simps [simp del]

text \<open>\<open>ConfigParser.get\<close> with \<open>raw=True\<close> and a fallback: the value as stored.\<close>

definition config_get_raw :: "config \<Rightarrow> string \<Rightarrow> string \<Rightarrow> string option" where
  "config_get_raw c s opt =
     (case unify_values c s of Inl e \<Rightarrow> None | Inr d \<Rightarrow> d (optionxform opt))"

text \<open>\<open>ConfigParser.get\<close> with interpolation.\<close>

definition config_get :: "config \<Rightarrow> string \<Rightarrow> string \<Rightarrow> py_error + string" where
  "config_get c s opt =
     (case unify_values c s of
        Inl e \<Rightarrow> Inl e
      | Inr d \<Rightarrow>
         (case d (optionxform opt) of
            None \<Rightarrow> Inl (NoOptionError (optionxform opt) s)
          | Some v \<Rightarrow> interpolate_some 9 d v))"

text \<open>
  \<open>_read\<close> on the logical lines of a file. \<open>cursect\<close> is the name of the section
  that option lines go to (none before the first header); \<open>added_sections\<close> and
  \<open>added_options\<close> are the source's \<open>elements_added\<close>; \<open>bad\<close> says that a
  \<open>ParsingError\<close> is pending, which the source raises at the end of the file.
\<close>

record reader =
  conf :: config
  cursect :: "string option"
  added_sections :: "string list"
  added_options :: "(string \<times> string) list"
  bad :: bool

fun read_line :: "line \<Rightarrow> reader \<Rightarrow> py_error + reader" where
  "read_line (Skipped t) r = Inr r"
| "read_line (Header n) r =
     (if n \<in> fst ` set (sections (conf r)) then
        (if n \<in> set (added_sections r) then Inl (DuplicateSectionError n)
         else Inr (r\<lparr>cursect := Some n, added_sections := n # added_sections r\<rparr>))
      else if n = default_section then Inr (r\<lparr>cursect := Some n\<rparr>)
      else Inr (r\<lparr>conf := (conf r)\<lparr>sections := sections (conf r) @ [(n, [])]\<rparr>,
                  cursect := Some n, added_sections := n # added_sections r\<rparr>))"
| "read_line (Item k v) r =
     (case cursect r of
        None \<Rightarrow> Inl MissingSectionHeaderError
      | Some n \<Rightarrow>
          if (n, optionxform k) \<in> set (added_options r)
          then Inl (DuplicateOptionError n (optionxform k))
          else Inr (r\<lparr>conf := store (conf r) n (optionxform k) v,
                      added_options := (n, optionxform k) # added_options r,
                      bad := (bad r \<or> k = [])\<rparr>))"
| "read_line (Bad t) r =
     (case cursect r of
        None \<Rightarrow> Inl MissingSectionHeaderError
      | Some n \<Rightarrow> Inr (r\<lparr>bad := True\<rparr>))"

fun read_lines :: "line list \<Rightarrow> reader \<Rightarrow> py_error + reader" where
  "read_lines [] r = Inr r"
| "read_lines (l # ls) r =
     (case read_line l r of Inl e \<Rightarrow> Inl e | Inr r' \<Rightarrow> read_lines ls r')"

definition new_reader :: reader where
  "new_reader = \<lparr>conf = empty_config, cursect = None, added_sections = [],
                  added_options = [], bad = False\<rparr>"

definition read_config :: "line list \<Rightarrow> py_error + config" where
  "read_config ls =
     (case read_lines ls new_reader of
        Inl e \<Rightarrow> Inl e
      | Inr r \<Rightarrow> if bad r then Inl ParsingError else Inr (conf r))"

text \<open>\<open>_write_section\<close> and \<open>write\<close>: the calls of \<open>fp.write\<close>, in order.\<close>

definition write_section :: "string \<Rightarrow> (string \<times> string) list \<Rightarrow> line list" where
  "write_section section_name section_items =
     Header section_name # map (\<lambda>(key, v). Item key v) section_items @ [Skipped []]"

definition config_write :: "config \<Rightarrow> line list" where
  "config_write c =
     (if defaults c \<noteq> [] then write_section default_section (defaults c) else []) @
     concat (map (\<lambda>(section, section_items). write_section section section_items) (sections c))"

section \<open>The file system\<close>

text \<open>
  A tree of directories and files; a path is the list of its components from the root.
  Directory entries are kept in the order in which \<open>iterdir\<close> lists them. Modes and
  owners are not represented.
\<close>

type_synonym path = "string list"

datatype node = File "line list" | Dir "(string \<times> node) list"

fun lookup :: "node \<Rightarrow> path \<Rightarrow> node option" where
  "lookup n [] = Some n"
| "lookup (File ls) (c # cs) = None"
| "lookup (Dir es) (c # cs) = (case map_of es c of None \<Rightarrow> None | Some n \<Rightarrow> lookup n cs)"

text \<open>\<open>Path.exists()\<close>\<close>

definition path_exists :: "node \<Rightarrow> path \<Rightarrow> bool" where
  "path_exists tree p = (lookup tree p \<noteq> None)"

text \<open>
  \<open>put tree p n\<close> places \<open>n\<close> at \<open>p\<close>, replacing what is there; the parent of \<open>p\<close>
  must be a directory. \<open>put_parents\<close> creates the missing directories on the way, as
  \<open>os.makedirs\<close> does. \<open>remove\<close> takes the entry at \<open>p\<close> away.
\<close>

fun put :: "node \<Rightarrow> path \<Rightarrow> node \<Rightarrow> node option" where
  "put tree [] n = Some n"
| "put (File ls) (c # cs) n = None"
| "put (Dir es) [c] n = Some (Dir (AList.update c n es))"
| "put (Dir es) (c # c' # cs) n =
     (case map_of es c of
        None \<Rightarrow> None
      | Some child \<Rightarrow>
          (case put child (c' # cs) n of
             None \<Rightarrow> None
           | Some child' \<Rightarrow> Some (Dir (AList.update c child' es))))"

fun put_parents :: "node \<Rightarrow> path \<Rightarrow> node \<Rightarrow> node option" where
  "put_parents tree [] n = Some n"
| "put_parents (File ls) (c # cs) n = None"
| "put_parents (Dir es) [c] n = Some (Dir (AList.update c n es))"
| "put_parents (Dir es) (c # c' # cs) n =
     (case put_parents (case map_of es c of None \<Rightarrow> Dir [] | Some child \<Rightarrow> child) (c' # cs) n of
        None \<Rightarrow> None
      | Some child' \<Rightarrow> Some (Dir (AList.update c child' es)))"

fun remove :: "node \<Rightarrow> path \<Rightarrow> node option" where
  "remove tree [] = None"
| "remove (File ls) (c # cs) = None"
| "remove (Dir es) [c] =
     (if c \<in> fst ` set es then Some (Dir (AList.delete c es)) else None)"
| "remove (Dir es) (c # c' # cs) =
     (case map_of es c of
        None \<Rightarrow> None
      | Some child \<Rightarrow>
          (case remove child (c' # cs) of
             None \<Rightarrow> None
           | Some child' \<Rightarrow> Some (Dir (AList.update c child' es))))"

text \<open>
  \<open>shutil.rmtree\<close> removes a directory and raises on anything else;
  \<open>shutil.copytree\<close> copies a directory to a place where nothing exists yet. Either
  can fail for reasons outside the tree (a permission, the disk); such a failure is an
  argument of the model and is taken to happen before anything was changed.
\<close>

definition rmtree :: "bool \<Rightarrow> node \<Rightarrow> path \<Rightarrow> py_error + node" where
  "rmtree fails tree p =
     (if fails then Inl OSError
      else case lookup tree p of
             Some (Dir es) \<Rightarrow> (case remove tree p of None \<Rightarrow> Inl OSError | Some tree' \<Rightarrow> Inr tree')
           | _ \<Rightarrow> Inl OSError)"

definition copytree :: "bool \<Rightarrow> node \<Rightarrow> path \<Rightarrow> path \<Rightarrow> py_error + node" where
  "copytree fails tree src dst =
     (if fails then Inl OSError
      else case lookup tree src of
             Some (Dir es) \<Rightarrow>
               if path_exists tree dst then Inl OSError
               else (case put_parents tree dst (Dir es) of
                       None \<Rightarrow> Inl OSError
                     | Some tree' \<Rightarrow> Inr tree')
           | _ \<Rightarrow> Inl OSError)"

text \<open>
  \<open>config.read(path)\<close> on a fresh parser: a file that cannot be opened is passed over
  and leaves the parser empty.
\<close>

definition config_read :: "node \<Rightarrow> path \<Rightarrow> py_error + config" where
  "config_read tree p =
     (case lookup tree p of
        Some (File ls) \<Rightarrow> read_config ls
      | _ \<Rightarrow> Inr empty_config)"

section \<open>The state of a session\<close>

text \<open>
  The file tree that holds the source root and the target root, the archives in the
  backup directory (by file name; \<open>None\<close> is an archive that was opened but not
  completed), and the log. The backup directory is kept apart from the tree.
\<close>

record state =
  fs :: node
  backups :: "(string \<times> node option) list"
  logged :: log

definition logmsg :: "level \<Rightarrow> string \<Rightarrow> state \<Rightarrow> state" where
  "logmsg l m st = st\<lparr>logged := logged st @ [(l, m)]\<rparr>"

text \<open>\<open>str(path)\<close>\<close>

definition show_path :: "path \<Rightarrow> string" where
  "show_path p = concat (map (\<lambda>c. ''/'' @ c) p)"

text \<open>The text of an exception in a log message stands for \<open>str(e)\<close>; it is kept as
  the name of the exception class.\<close>

fun error_text :: "py_error \<Rightarrow> string" where
  "error_text (DuplicateSectionError s) = ''DuplicateSectionError''"
| "error_text (DuplicateOptionError s k) = ''DuplicateOptionError''"
| "error_text MissingSectionHeaderError = ''MissingSectionHeaderError''"
| "error_text ParsingError = ''ParsingError''"
| "error_text (NoSectionError s) = ''NoSectionError''"
| "error_text (NoOptionError k s) = ''NoOptionError''"
| "error_text InterpolationSyntaxError = ''InterpolationSyntaxError''"
| "error_text (InterpolationMissingOptionError k) = ''InterpolationMissingOptionError''"
| "error_text InterpolationDepthError = ''InterpolationDepthError''"
| "error_text ValueError = ''ValueError''"
| "error_text OSError = ''OSError''"

text \<open>
  What the environment decides during one deployment: the two time stamps taken from
  the clock, and whether and where the operations on files fail.
\<close>

datatype write_fault = No_fault | Open_fails | Write_fails nat

datatype tar_fault = Tar_ok | Tar_open_fails | Tar_add_fails

record env =
  build_num :: string
  timestamp :: string
  conf_fault :: write_fault
  tar_fault :: tar_fault
  rmtree_fails :: bool
  copytree_fails :: bool
  windows :: bool

section \<open>\<open>SplunkAppManager\<close>\<close>

definition app_conf_path :: "path \<Rightarrow> string \<Rightarrow> path" where
  "app_conf_path apps_source_dir app_name = apps_source_dir @ [app_name, ''default'', ''app.conf'']"

text \<open>\<open>list_available_apps\<close>; \<open>iterdir\<close> raises on a path that is not a directory.\<close>

definition is_app :: "string \<times> node \<Rightarrow> bool" where
  "is_app e = (case snd e of
                 Dir es \<Rightarrow> path_exists (Dir es) [''default'', ''app.conf'']
               | File ls \<Rightarrow> False)"

definition list_available_apps :: "path \<Rightarrow> node \<Rightarrow> py_error + string list" where
  "list_available_apps apps_source_dir tree =
     (if \<not> path_exists tree apps_source_dir then Inr []
      else case lookup tree apps_source_dir of
             Some (Dir es) \<Rightarrow> Inr (sort (map fst (filter is_app es)))
           | _ \<Rightarrow> Inl OSError)"

text \<open>\<open>get_current_version\<close>: the loop over the two sections, inside the \<open>try\<close>.\<close>

fun version_in :: "config \<Rightarrow> string list \<Rightarrow> string" where
  "version_in config [] = ''1.0.0''"
| "version_in config (section # rest) =
     (if has_section config section \<and> has_option config section ''version''
      then (case config_get config section ''version'' of
              Inl e \<Rightarrow> ''1.0.0''
            | Inr v \<Rightarrow> strip_quotes v)
      else version_in config rest)"

definition get_current_version :: "path \<Rightarrow> string \<Rightarrow> node \<Rightarrow> string" where
  "get_current_version apps_source_dir app_name tree =
     (if \<not> path_exists tree (app_conf_path apps_source_dir app_name) then ''1.0.0''
      else case config_read tree (app_conf_path apps_source_dir app_name) of
             Inl e \<Rightarrow> ''1.0.0''
           | Inr config \<Rightarrow> version_in config [''launcher'', ''install''])"

text \<open>\<open>validate_app_structure\<close>: each loop returns at the first path that is missing.\<close>

fun first_missing :: "node \<Rightarrow> path \<Rightarrow> path list \<Rightarrow> path option" where
  "first_missing tree app_dir [] = None"
| "first_missing tree app_dir (rel # rest) =
     (if \<not> path_exists tree (app_dir @ rel) then Some (app_dir @ rel)
      else first_missing tree app_dir rest)"

definition required_dirs :: "path list" where
  "required_dirs = [[''default''], [''metadata'']]"

definition required_files :: "path list" where
  "required_files = [[''default'', ''app.conf''], [''metadata'', ''default.meta'']]"

definition validate_app_structure :: "path \<Rightarrow> string \<Rightarrow> state \<Rightarrow> bool \<times> state" where
  "validate_app_structure apps_source_dir app_name st =
     (let app_dir = apps_source_dir @ [app_name];
          st1 = logmsg LOG (''Validating '' @ app_name @ '' app structure...'') st
      in case first_missing (fs st1) app_dir required_dirs of
           Some p \<Rightarrow> (False, logmsg ERROR (''Missing required directory: '' @ show_path p) st1)
         | None \<Rightarrow>
            (case first_missing (fs st1) app_dir required_files of
               Some p \<Rightarrow> (False, logmsg ERROR (''Missing required file: '' @ show_path p) st1)
             | None \<Rightarrow>
                (True, logmsg SUCCESS (app_name @ '' app structure validation passed'') st1)))"

text \<open>
  \<open>update_app_version\<close>. \<open>updated_config\<close> is the part of the \<open>try\<close> block between
  reading and writing; every exception of the library leaves it at once.
\<close>

definition then_do :: "'e + 'a \<Rightarrow> ('a \<Rightarrow> 'e + 'b) \<Rightarrow> 'e + 'b" where
  "then_do x f = (case x of Inl e \<Rightarrow> Inl e | Inr a \<Rightarrow> f a)"

definition ensure_section :: "config \<Rightarrow> string \<Rightarrow> py_error + config" where
  "ensure_section c s = (if \<not> has_section c s then add_section c s else Inr c)"

definition update_label :: "config \<Rightarrow> string \<Rightarrow> py_error + config" where
  "update_label c version =
     (if has_option c ''launcher'' ''label''
      then then_do (config_get c ''launcher'' ''label'') (\<lambda>current_label.
             config_set c ''launcher'' ''label'' (rewrite_label version current_label))
      else Inr c)"

definition updated_config :: "config \<Rightarrow> string \<Rightarrow> string \<Rightarrow> py_error + config" where
  "updated_config c version build =
     then_do (ensure_section c ''launcher'') (\<lambda>c1.
     then_do (config_set c1 ''launcher'' ''version'' version) (\<lambda>c2.
     then_do (ensure_section c2 ''install'') (\<lambda>c3.
     then_do (config_set c3 ''install'' ''build'' build) (\<lambda>c4.
     update_label c4 version))))"

text \<open>
  \<open>with open(app_conf_path, 'w') as f: config.write(f)\<close>. Opening truncates the file
  in place. The result is the tree afterwards and whether an exception was raised; when
  the \<open>k\<close>-th call of \<open>fp.write\<close> fails, what the earlier calls wrote is in the file.
\<close>

definition write_back :: "write_fault \<Rightarrow> node \<Rightarrow> path \<Rightarrow> line list \<Rightarrow> node \<times> py_error option" where
  "write_back fault tree p chunks =
     (case (if fault = Open_fails then None
            else case lookup tree p of
                   Some (Dir es) \<Rightarrow> None
                 | _ \<Rightarrow> put tree p (File [])) of
        None \<Rightarrow> (tree, Some OSError)
      | Some opened \<Rightarrow>
         (case fault of
            Write_fails k \<Rightarrow>
              if k < length chunks
              then (case put opened p (File (take k chunks)) of
                      None \<Rightarrow> (opened, Some OSError)
                    | Some t \<Rightarrow> (t, Some OSError))
              else (case put opened p (File chunks) of
                      None \<Rightarrow> (opened, Some OSError)
                    | Some t \<Rightarrow> (t, None))
          | _ \<Rightarrow>
              (case put opened p (File chunks) of
                 None \<Rightarrow> (opened, Some OSError)
               | Some t \<Rightarrow> (t, None))))"

definition update_app_version :: "path \<Rightarrow> string \<Rightarrow> string \<Rightarrow> env \<Rightarrow> state \<Rightarrow> bool \<times> state" where
  "update_app_version apps_source_dir app_name version ev st =
     (let p = app_conf_path apps_source_dir app_name in
      if \<not> path_exists (fs st) p
      then (False, logmsg ERROR (''App configuration file not found: '' @ show_path p) st)
      else
        let st1 = logmsg LOG (''Updating '' @ app_name @ '' version to '' @ version @ ''...'') st in
        case then_do (config_read (fs st1) p) (\<lambda>c. updated_config c version (build_num ev)) of
          Inl e \<Rightarrow> (False, logmsg ERROR (''Failed to update version: '' @ error_text e) st1)
        | Inr c \<Rightarrow>
           (case write_back (conf_fault ev) (fs st1) p (config_write c) of
              (tree, Some e) \<Rightarrow>
                (False, logmsg ERROR (''Failed to update version: '' @ error_text e)
                          (st1\<lparr>fs := tree\<rparr>))
            | (tree, None) \<Rightarrow>
                (True, logmsg SUCCESS (app_name @ '' version updated to '' @ version)
                         (st1\<lparr>fs := tree\<rparr>))))"

section \<open>\<open>DeploymentManager\<close>\<close>

text \<open>
  \<open>backup_existing_app\<close>. \<open>tarfile.open\<close> creates the archive file and \<open>tar.add\<close>
  fills it; a failure of the second leaves an archive that is not complete.
\<close>

definition backup_name :: "string \<Rightarrow> env \<Rightarrow> string" where
  "backup_name app_name ev = app_name @ ''_backup_'' @ timestamp ev @ ''.tar.gz''"

definition backup_existing_app :: "string \<Rightarrow> path \<Rightarrow> env \<Rightarrow> state \<Rightarrow> bool \<times> state" where
  "backup_existing_app app_name splunk_apps_dir ev st =
     (case lookup (fs st) (splunk_apps_dir @ [app_name]) of
        None \<Rightarrow> (True, logmsg LOG (''No existing '' @ app_name @ '' app found to backup'') st)
      | Some existing \<Rightarrow>
         (let st1 = logmsg LOG (''Backing up existing '' @ app_name @ '' app...'') st in
          case tar_fault ev of
            Tar_open_fails \<Rightarrow>
              (False, logmsg ERROR (''Failed to create backup: '' @ error_text OSError) st1)
          | Tar_add_fails \<Rightarrow>
              (False, logmsg ERROR (''Failed to create backup: '' @ error_text OSError)
                        (st1\<lparr>backups := AList.update (backup_name app_name ev) None (backups st1)\<rparr>))
          | Tar_ok \<Rightarrow>
              (True, logmsg SUCCESS (''Backup created: '' @ backup_name app_name ev)
                       (st1\<lparr>backups :=
                              AList.update (backup_name app_name ev) (Some existing) (backups st1)\<rparr>))))"

text \<open>
  The \<open>try\<close> block of \<open>deploy_app\<close>: remove the target if it exists, copy the source
  there, set the modes (which this model does not represent and which never raises).
\<close>

definition replace_app :: "path \<Rightarrow> string \<Rightarrow> path \<Rightarrow> env \<Rightarrow> state \<Rightarrow> bool \<times> state" where
  "replace_app apps_source_dir app_name target_dir ev st =
     (let existed = path_exists (fs st) target_dir;
          st1 = (if existed then logmsg LOG (''Removing existing '' @ app_name @ '' app...'') st
                 else st)
      in case (if existed then rmtree (rmtree_fails ev) (fs st1) target_dir else Inr (fs st1)) of
           Inl e \<Rightarrow>
             (False, logmsg ERROR (''Failed to deploy '' @ app_name @ '': '' @ error_text e) st1)
         | Inr t1 \<Rightarrow>
            (let st2 = logmsg LOG (''Copying '' @ app_name @ '' app to Splunk...'') (st1\<lparr>fs := t1\<rparr>) in
             case copytree (copytree_fails ev) (fs st2) (apps_source_dir @ [app_name]) target_dir of
               Inl e \<Rightarrow>
                 (False, logmsg ERROR (''Failed to deploy '' @ app_name @ '': '' @ error_text e) st2)
             | Inr t2 \<Rightarrow>
                 (True,
                  logmsg SUCCESS (app_name @ '' app deployed successfully'')
                    (logmsg LOG (if windows ev then ''Skipping permission setting on Windows''
                                 else ''Setting permissions for '' @ app_name @ '' app...'')
                       (st2\<lparr>fs := t2\<rparr>)))))"

text \<open>\<open>deploy_app\<close>; \<open>target_dir.parent\<close> is the path without its last component.\<close>

definition deploy_app :: "path \<Rightarrow> string \<Rightarrow> path \<Rightarrow> string \<Rightarrow> env \<Rightarrow> state \<Rightarrow> bool \<times> state" where
  "deploy_app apps_source_dir app_name target_dir version ev st =
     (let st0 = logmsg LOG (''Deploying '' @ app_name @ '' app (v'' @ version @ '')...'') st in
      case validate_app_structure apps_source_dir app_name st0 of
        (False, st1) \<Rightarrow>
          (False, logmsg ERROR (''App structure validation failed for '' @ app_name) st1)
      | (True, st1) \<Rightarrow>
         (case backup_existing_app app_name (butlast target_dir) ev st1 of
            (False, st2) \<Rightarrow> (False, logmsg ERROR (''Backup failed for '' @ app_name) st2)
          | (True, st2) \<Rightarrow>
             (case update_app_version apps_source_dir app_name version ev st2 of
                (False, st3) \<Rightarrow>
                  (False, logmsg ERROR (''Version update failed for '' @ app_name) st3)
              | (True, st3) \<Rightarrow> replace_app apps_source_dir app_name target_dir ev st3)))"

text \<open>\<open>validate_deployment\<close>\<close>

definition key_files :: "path list" where
  "key_files = [[''default'', ''app.conf''], [''metadata'', ''default.meta'']]"

definition validate_deployment :: "string \<Rightarrow> path \<Rightarrow> state \<Rightarrow> bool \<times> state" where
  "validate_deployment app_name target_dir st =
     (let st1 = logmsg LOG (''Validating '' @ app_name @ '' deployment...'') st in
      if \<not> path_exists (fs st1) target_dir
      then (False, logmsg ERROR (app_name @ '' app not found at target location'') st1)
      else case first_missing (fs st1) target_dir key_files of
             Some p \<Rightarrow> (False, logmsg ERROR (''Key file missing: '' @ show_path p) st1)
           | None \<Rightarrow> (True, logmsg SUCCESS (app_name @ '' deployment validation passed'') st1))"

text \<open>
  The loop of \<open>run\<close> over the selected apps. Each app comes with the line that the
  operator enters at the version prompt and with what the environment does during its
  deployment. \<open>deployed_apps\<close> and \<open>app_versions\<close> are the two lists of the source.
\<close>

record session =
  deployed_apps :: "string list"
  app_versions :: "string list"
  world :: state

definition deploy_one :: "path \<Rightarrow> path \<Rightarrow> string \<times> string \<times> env \<Rightarrow> session \<Rightarrow> session" where
  "deploy_one apps_source_dir splunk_apps_dir sel se =
     (case sel of (app, input_line, ev) \<Rightarrow>
        let current_version = get_current_version apps_source_dir app (fs (world se));
            (new_version, warnings) = prompt_for_version app current_version input_line;
            st = (world se)\<lparr>logged := logged (world se) @ warnings\<rparr>;
            target_dir = splunk_apps_dir @ [app]
        in case deploy_app apps_source_dir app target_dir new_version ev st of
             (True, st1) \<Rightarrow>
               (case validate_deployment app target_dir st1 of
                  (True, st2) \<Rightarrow>
                    \<lparr>deployed_apps = deployed_apps se @ [app],
                     app_versions = app_versions se @ [new_version],
                     world = logmsg SUCCESS (app @ '' v'' @ new_version @ '' deployed and validated'') st2\<rparr>
                | (False, st2) \<Rightarrow>
                    se\<lparr>world := logmsg ERROR (app @ '' deployment validation failed'') st2\<rparr>)
           | (False, st1) \<Rightarrow> se\<lparr>world := logmsg ERROR (app @ '' deployment failed'') st1\<rparr>)"

fun deploy_selected :: "path \<Rightarrow> path \<Rightarrow> (string \<times> string \<times> env) list \<Rightarrow> session \<Rightarrow> session" where
  "deploy_selected apps_source_dir splunk_apps_dir [] se = se"
| "deploy_selected apps_source_dir splunk_apps_dir (sel # rest) se =
     deploy_selected apps_source_dir splunk_apps_dir rest
       (deploy_one apps_source_dir splunk_apps_dir sel se)"

text \<open>\<open>splunk_apps_dir.mkdir(parents=True, exist_ok=True)\<close>\<close>

definition mkdir_parents :: "node \<Rightarrow> path \<Rightarrow> py_error + node" where
  "mkdir_parents tree p =
     (case lookup tree p of
        Some (Dir es) \<Rightarrow> Inr tree
      | Some (File ls) \<Rightarrow> Inl OSError
      | None \<Rightarrow> (case put_parents tree p (Dir []) of None \<Rightarrow> Inl OSError | Some t \<Rightarrow> Inr t))"

text \<open>
  \<open>run\<close> from the point where the Splunk home and the apps directory are known, and
  \<open>main\<close>. The selection menu is represented by the apps it returns
  (\<open>select_apps_interactive\<close> leaves through \<open>sys.exit(1)\<close> when there are none), the
  confirmation by the answer entered. Restart, git and the summary come after the loop;
  they are outside this model except for one fact: whether one of them raises, which
  \<open>main\<close> turns into exit status 1. A run that returns ends the process with status 0:
  \<open>main\<close> has no other call of \<open>sys.exit\<close>.
\<close>

datatype outcome = Returned | SystemExit nat | Raised py_error

definition run :: "path \<Rightarrow> path \<Rightarrow> (string \<times> string \<times> env) list \<Rightarrow> string \<Rightarrow> bool \<Rightarrow> state \<Rightarrow> outcome \<times> session" where
  "run apps_source_dir splunk_apps_dir selected proceed collaborators_raise st =
     (let start = \<lparr>deployed_apps = [], app_versions = [], world = st\<rparr> in
      case mkdir_parents (fs st) splunk_apps_dir of
        Inl e \<Rightarrow> (Raised e, start)
      | Inr t \<Rightarrow>
         (let st1 = st\<lparr>fs := t\<rparr> in
          if selected = [] then (SystemExit 1, start\<lparr>world := st1\<rparr>)
          else if map lower_char (py_strip proceed) \<notin> {''y'', ''yes''}
          then (Returned, start\<lparr>world := logmsg INFO ''Deployment cancelled'' st1\<rparr>)
          else
            let se = deploy_selected apps_source_dir splunk_apps_dir selected (start\<lparr>world := st1\<rparr>) in
            if collaborators_raise then (Raised OSError, se)
            else (Returned,
                  se\<lparr>world := logmsg SUCCESS ''Deployment completed successfully!'' (world se)\<rparr>)))"

definition exit_status :: "outcome \<Rightarrow> nat" where
  "exit_status out = (case out of Returned \<Rightarrow> 0 | SystemExit code \<Rightarrow> code | Raised e \<Rightarrow> 1)"

definition main :: "path \<Rightarrow> path \<Rightarrow> (string \<times> string \<times> env) list \<Rightarrow> string \<Rightarrow> bool \<Rightarrow> state \<Rightarrow> nat \<times> session" where
  "main apps_source_dir splunk_apps_dir selected proceed collaborators_raise st =
     (case run apps_source_dir splunk_apps_dir selected proceed collaborators_raise st of
        (out, se) \<Rightarrow> (exit_status out, se))"

text \<open>
  The value stored under a key of a section, without the defaults, and the sections
  that \<open>update_app_version\<close> does not name.
\<close>

definition section_value :: "config \<Rightarrow> string \<Rightarrow> string \<Rightarrow> string option" where
  "section_value c s k =
     (case map_of (sections c) s of None \<Rightarrow> None | Some items \<Rightarrow> map_of items k)"

definition other_sections :: "config \<Rightarrow> (string \<times> (string \<times> string) list) list" where
  "other_sections c = filter (\<lambda>e. fst e \<noteq> ''launcher'' \<and> fst e \<noteq> ''install'') (sections c)"

section \<open>Well-formed configurations\<close>

text \<open>
  What the reader guarantees of a configuration it returns, and what the writer needs to
  be read back: keys are distinct within a section, not empty and in the form that
  \<open>optionxform\<close> gives them; section names are distinct and none is \<open>DEFAULT\<close>.
  \<open>keys_ok\<close> and \<open>reader_ok\<close> are the same while a file is being read, where an
  empty key is allowed once the pending error is recorded.
\<close>

definition wf_items :: "(string \<times> string) list \<Rightarrow> bool" where
  "wf_items items =
     (distinct (map fst items) \<and> (\<forall>k\<in>fst ` set items. k \<noteq> [] \<and> optionxform k = k))"

definition wf_config :: "config \<Rightarrow> bool" where
  "wf_config c =
     (wf_items (defaults c) \<and> distinct (map fst (sections c)) \<and>
      default_section \<notin> fst ` set (sections c) \<and> (\<forall>e\<in>set (sections c). wf_items (snd e)))"

definition keys_ok :: "bool \<Rightarrow> (string \<times> string) list \<Rightarrow> bool" where
  "keys_ok b items =
     (distinct (map fst items) \<and> (\<forall>k\<in>fst ` set items. optionxform k = k \<and> (\<not> b \<longrightarrow> k \<noteq> [])))"

definition reader_ok :: "reader \<Rightarrow> bool" where
  "reader_ok r =
     (keys_ok (bad r) (defaults (conf r)) \<and> distinct (map fst (sections (conf r))) \<and>
      default_section \<notin> fst ` set (sections (conf r)) \<and>
      (\<forall>e\<in>set (sections (conf r)). keys_ok (bad r) (snd e)))"

section \<open>A sample session\<close>

text \<open>
  The scenario of the specification: the source root \<open>/src\<close> holds \<open>appA\<close>, complete,
  and \<open>appB\<close>, without its \<open>metadata\<close> directory; an older \<open>appA\<close> is deployed
  under the target root \<open>/opt\<close>.
\<close>

definition sample_conf :: "line list" where
  "sample_conf =
     [Skipped ''# packaging'', Header ''ui'', Item ''is_visible'' ''true'',
      Header ''launcher'', Item ''author'' ''ops'', Item ''version'' ''1.0.0'',
      Item ''label'' ''App A v1.0.0'']"

definition sample_app :: node where
  "sample_app =
     Dir [(''default'', Dir [(''app.conf'', File sample_conf)]),
          (''metadata'', Dir [(''default.meta'', File [])])]"

definition sample_old_app :: node where
  "sample_old_app =
     Dir [(''default'', Dir [(''app.conf'', File [Header ''launcher'', Item ''version'' ''0.9.0''])]),
          (''metadata'', Dir [(''default.meta'', File [])])]"

definition sample_tree :: node where
  "sample_tree =
     Dir [(''src'', Dir [(''appB'', Dir [(''default'', Dir [(''app.conf'', File sample_conf)])]),
                         (''appA'', sample_app),
                         (''notes.txt'', File [])]),
          (''opt'', Dir [(''appA'', sample_old_app)])]"

definition sample_state :: state where
  "sample_state = \<lparr>fs = sample_tree, backups = [], logged = []\<rparr>"

definition sample_env :: env where
  "sample_env =
     \<lparr>build_num = ''202611040930'', timestamp = ''20261104_093000'', conf_fault = No_fault,
      tar_fault = Tar_ok, rmtree_fails = False, copytree_fails = False, windows = False\<rparr>"

definition sample_selection :: "(string \<times> string \<times> env) list" where
  "sample_selection = [(''appB'', [], sample_env), (''appA'', ''2.0.0'', sample_env)]"


definition sample_mixed_conf :: "line list" where
  "sample_mixed_conf =
     [Skipped ''# packaging'', Header ''ui'', Item ''Is_Visible'' ''true'',
      Skipped ''; who maintains it'', Header ''launcher'', Item ''Author'' ''ops'',
      Item ''version'' ''1.0.0'']"

definition sample_mixed_state :: state where
  "sample_mixed_state =
     \<lparr>fs = Dir [(''src'', Dir [(''appM'', Dir [(''default'', Dir [(''app.conf'', File sample_mixed_conf)]),
                                               (''metadata'', Dir [(''default.meta'', File [])])])])],
      backups = [], logged = []\<rparr>"

section \<open>Properties of the matchers\<close>

lemma run1_Some_iff:
  "run1 P s = Some r \<longleftrightarrow> (\<exists>a. a \<noteq> [] \<and> list_all P a \<and> s = a @ r \<and> (r = [] \<or> \<not> P (hd r)))"
proof
  assume h: "run1 P s = Some r"
  then have 1: "takeWhile P s \<noteq> []" and 2: "r = dropWhile P s"
    by (auto simp: run1_def split: if_splits)
  have "list_all P (takeWhile P s)" by (simp add: list_all_iff) (meson set_takeWhileD)
  moreover have "s = takeWhile P s @ r" using 2 by simp
  moreover have "r = [] \<or> \<not> P (hd r)" using 2 by (metis hd_dropWhile)
  ultimately show "\<exists>a. a \<noteq> [] \<and> list_all P a \<and> s = a @ r \<and> (r = [] \<or> \<not> P (hd r))"
    using 1 by blast
next
  assume "\<exists>a. a \<noteq> [] \<and> list_all P a \<and> s = a @ r \<and> (r = [] \<or> \<not> P (hd r))"
  then obtain a where a: "a \<noteq> []" "list_all P a" "s = a @ r" "r = [] \<or> \<not> P (hd r)" by blast
  have "takeWhile P s = a \<and> dropWhile P s = r"
    using a by (cases r) (auto simp: list_all_iff takeWhile_append dropWhile_append)
  then show "run1 P s = Some r" using a by (simp add: run1_def)
qed

lemma expect_Some_iff: "expect c s = Some r \<longleftrightarrow> s = c # r"
  by (auto simp: expect_def split: list.splits)

lemma not_digit_dot: "\<not> is_digit CHR ''.''" by (simp add: is_digit_def)

lemma match_triple_Some_iff:
  "match_triple s = Some r \<longleftrightarrow>
     (\<exists>a b c. a \<noteq> [] \<and> b \<noteq> [] \<and> c \<noteq> [] \<and> list_all is_digit (a @ b @ c) \<and>
        s = a @ ''.'' @ b @ ''.'' @ c @ r \<and> (r = [] \<or> \<not> is_digit (hd r)))"
  (is "?L \<longleftrightarrow> ?R")
proof
  assume ?L
  then obtain r1 r2 r3 r4 where
    1: "run1 is_digit s = Some r1" and 2: "expect CHR ''.'' r1 = Some r2" and
    3: "run1 is_digit r2 = Some r3" and 4: "expect CHR ''.'' r3 = Some r4" and
    5: "run1 is_digit r4 = Some r"
    unfolding match_triple_def by (auto simp: bind_eq_Some_conv)
  from 1 obtain a where a: "a \<noteq> []" "list_all is_digit a" "s = a @ r1"
    unfolding run1_Some_iff by blast
  from 3 obtain b where b: "b \<noteq> []" "list_all is_digit b" "r2 = b @ r3"
    unfolding run1_Some_iff by blast
  from 5 obtain c where c: "c \<noteq> []" "list_all is_digit c" "r4 = c @ r" "r = [] \<or> \<not> is_digit (hd r)"
    unfolding run1_Some_iff by blast
  from 2 have r1: "r1 = CHR ''.'' # r2" by (simp add: expect_Some_iff)
  from 4 have r3: "r3 = CHR ''.'' # r4" by (simp add: expect_Some_iff)
  have "s = a @ ''.'' @ b @ ''.'' @ c @ r" using a b c r1 r3 by simp
  moreover have "list_all is_digit (a @ b @ c)" using a b c by simp
  ultimately show ?R using a(1) b(1) c(1) c(4) by blast
next
  assume ?R
  then obtain a b c where h: "a \<noteq> []" "b \<noteq> []" "c \<noteq> []" "list_all is_digit (a @ b @ c)"
    "s = a @ ''.'' @ b @ ''.'' @ c @ r" "r = [] \<or> \<not> is_digit (hd r)" by blast
  have 1: "run1 is_digit s = Some (''.'' @ b @ ''.'' @ c @ r)"
    unfolding run1_Some_iff using h by (intro exI[of _ a]) (simp add: not_digit_dot)
  have 3: "run1 is_digit (b @ ''.'' @ c @ r) = Some (''.'' @ c @ r)"
    unfolding run1_Some_iff using h by (intro exI[of _ b]) (simp add: not_digit_dot)
  have 5: "run1 is_digit (c @ r) = Some r"
    unfolding run1_Some_iff using h by (intro exI[of _ c]) simp
  show ?L unfolding match_triple_def using 1 3 5 by (simp add: expect_def)
qed


lemma strict_triple_iff_match: "strict_triple s \<longleftrightarrow> match_triple s = Some []"
  unfolding strict_triple_def match_triple_Some_iff by simp

lemma match_version_iff:
  "match_version s \<longleftrightarrow> strict_triple s \<or> (\<exists>t. s = t @ [newline] \<and> strict_triple t)"
proof -
  have nd: "\<not> is_digit newline" by (simp add: is_digit_def newline_def)
  have "match_triple s = Some [newline] \<longleftrightarrow> (\<exists>t. s = t @ [newline] \<and> match_triple t = Some [])"
    unfolding match_triple_Some_iff
  proof (intro iffI; elim exE conjE)
    fix a b c
    assume "a \<noteq> []" "b \<noteq> []" "c \<noteq> []" "list_all is_digit (a @ b @ c)"
      "s = a @ ''.'' @ b @ ''.'' @ c @ [newline]"
    then show "\<exists>t. s = t @ [newline] \<and> (\<exists>a b c. a \<noteq> [] \<and> b \<noteq> [] \<and> c \<noteq> [] \<and>
        list_all is_digit (a @ b @ c) \<and> t = a @ ''.'' @ b @ ''.'' @ c @ [] \<and> ([] = [] \<or> \<not> is_digit (hd [])))"
      by (intro exI[of _ "a @ ''.'' @ b @ ''.'' @ c"]) auto
  next
    fix t a b c
    assume "s = t @ [newline]" "a \<noteq> []" "b \<noteq> []" "c \<noteq> []" "list_all is_digit (a @ b @ c)"
      "t = a @ ''.'' @ b @ ''.'' @ c @ []"
    then show "\<exists>a b c. a \<noteq> [] \<and> b \<noteq> [] \<and> c \<noteq> [] \<and> list_all is_digit (a @ b @ c) \<and>
        s = a @ ''.'' @ b @ ''.'' @ c @ [newline] \<and> ([newline] = [] \<or> \<not> is_digit (hd [newline]))"
      using nd by (intro exI[of _ a] exI[of _ b] exI[of _ c]) auto
  qed
  then show ?thesis
    unfolding match_version_def strict_triple_iff_match
    by (cases "match_triple s") (auto simp: at_dollar_def)
qed

lemma strip_chars_last: "strip_chars P s \<noteq> [] \<Longrightarrow> \<not> P (last (strip_chars P s))"
  unfolding strip_chars_def by (simp add: last_rev hd_dropWhile)

lemma match_version_stripped: "match_version (py_strip inp) = strict_triple (py_strip inp)"
proof -
  have "\<not> (\<exists>t. py_strip inp = t @ [newline])"
  proof
    assume "\<exists>t. py_strip inp = t @ [newline]"
    then obtain t where t: "py_strip inp = t @ [newline]" by blast
    then have "py_strip inp \<noteq> []" "last (py_strip inp) = newline" by auto
    then show False using strip_chars_last[of is_space inp]
      by (simp add: py_strip_def is_space_def newline_def)
  qed
  then show ?thesis by (simp add: match_version_iff)
qed


section \<open>Version resolution\<close>

text \<open>
  Claim C5. For every current version and every line entered, \<open>prompt_for_version\<close>
  returns the entered string (stripped of surrounding white space, as the source strips
  it before looking at it) exactly when that string is three dot-separated runs of
  digits, and the current version unchanged for every other entry. The function has no
  failing branch.
\<close>

theorem prompt_for_version_resolves:
  "fst (prompt_for_version app_name current_version input_line) =
     (if strict_triple (py_strip input_line) then py_strip input_line else current_version)"
proof (cases "py_strip input_line = []")
  case True
  then have "\<not> strict_triple (py_strip input_line)" by (simp add: strict_triple_def)
  then show ?thesis using True by (simp add: prompt_for_version_def)
next
  case False
  then show ?thesis by (simp add: prompt_for_version_def Let_def match_version_stripped)
qed

theorem prompt_for_version_resolves_witness:
  "fst (prompt_for_version ''app'' ''1.0.0'' '' 2.3.4 '') = ''2.3.4'' \<and>
   fst (prompt_for_version ''app'' ''1.0.0'' ''2.3'') = ''1.0.0''"
proof -
  have s1: "py_strip '' 2.3.4 '' = ''2.3.4''" by code_simp
  have s2: "py_strip ''2.3'' = ''2.3''" by code_simp
  have t1: "strict_triple ''2.3.4''" unfolding strict_triple_iff_match by code_simp
  have t2: "\<not> strict_triple ''2.3''" unfolding strict_triple_iff_match by code_simp
  show ?thesis
    using prompt_for_version_resolves [of "''app''" "''1.0.0''" "'' 2.3.4 ''"]
      prompt_for_version_resolves [of "''app''" "''1.0.0''" "''2.3''"]
    by (simp only: s1 s2 t1 t2 if_True if_False simp_thms)
qed


section \<open>The label rewrite\<close>

lemma at_dollar_Some: "at_dollar s = Some r \<Longrightarrow> r = s \<and> length s \<le> 1"
  by (auto simp: at_dollar_def split: if_splits)

lemma run1_shorter: "run1 P s = Some r \<Longrightarrow> length r < length s"
  unfolding run1_Some_iff by auto

lemma match_triple_shorter: "match_triple s = Some r \<Longrightarrow> length r < length s"
  unfolding match_triple_Some_iff by auto

lemma match_version_suffix_shorter:
  "match_version_suffix s = Some r \<Longrightarrow> length r < length s"
proof -
  assume "match_version_suffix s = Some r"
  then obtain r1 r2 r3 where 1: "run1 is_space s = Some r1" and 2: "expect CHR ''v'' r1 = Some r2"
    and 3: "match_triple r2 = Some r3" and 4: "at_dollar (dropWhile (\<lambda>c. c \<noteq> newline) r3) = Some r"
    unfolding match_version_suffix_def by (auto simp: bind_eq_Some_conv)
  have "length r \<le> length r3" using at_dollar_Some[OF 4] length_dropWhile_le_any[of _ r3] by metis
  moreover have "length r3 < length r2" using 3 by (rule match_triple_shorter)
  moreover have "length r2 < length r1" using 2 by (simp add: expect_Some_iff)
  moreover have "length r1 < length s" using 1 by (rule run1_shorter)
  ultimately show ?thesis by linarith
qed

lemma match_paren_suffix_shorter:
  "match_paren_suffix s = Some r \<Longrightarrow> length r < length s"
proof -
  assume "match_paren_suffix s = Some r"
  then obtain r1 r2 where 1: "expect CHR ''('' (dropWhile is_space s) = Some r1"
    and 2: "expect CHR '')'' (dropWhile (\<lambda>c. c \<noteq> CHR '')'') r1) = Some r2" and 3: "at_dollar r2 = Some r"
    unfolding match_paren_suffix_def by (auto simp: bind_eq_Some_conv)
  have "length r = length r2" using at_dollar_Some[OF 3] by simp
  moreover have "length r2 < length r1"
    using 2 length_dropWhile_le_any[of "\<lambda>c. c \<noteq> CHR '')''" r1] by (simp add: expect_Some_iff)
  moreover have "length r1 < length s"
    using 1 length_dropWhile_le_any[of is_space s] by (simp add: expect_Some_iff)
  ultimately show ?thesis by linarith
qed

lemma length_re_sub: "length (re_sub m s) \<le> length s"
proof (induction m s rule: re_sub.induct)
  case (1 m)
  show ?case by simp
next
  case (2 m c cs)
  show ?case
  proof (cases "m (c # cs)")
    case None
    then show ?thesis using 2 by simp
  next
    case (Some r)
    then show ?thesis using 2 by (cases "length r \<le> length cs") auto
  qed
qed

lemma re_sub_fixed_Cons:
  assumes "re_sub m (c # cs) = c # cs" and "\<And>r. m (c # cs) = Some r \<Longrightarrow> length r \<le> length cs"
  shows "m (c # cs) = None \<and> re_sub m cs = cs"
proof (cases "m (c # cs)")
  case None
  then show ?thesis using assms(1) by simp
next
  case (Some r)
  then have le: "length r \<le> length cs" by (rule assms(2))
  then have "re_sub m (c # cs) = re_sub m r" using Some by simp
  then have "length (c # cs) \<le> length r" using assms(1) length_re_sub[of m r] by simp
  then show ?thesis using le by simp
qed

lemma re_sub_same_length: "length (re_sub m s) = length s \<Longrightarrow> re_sub m s = s"
proof (induction m s rule: re_sub.induct)
  case (1 m)
  show ?case by simp
next
  case (2 m c cs)
  show ?case
  proof (cases "m (c # cs)")
    case None
    then show ?thesis using 2 by simp
  next
    case (Some r)
    show ?thesis
    proof (cases "length r \<le> length cs")
      case True
      then have "re_sub m (c # cs) = re_sub m r" using Some by simp
      then have "length (c # cs) \<le> length r" using 2(3) length_re_sub[of m r] by simp
      then show ?thesis using True by simp
    next
      case False
      then show ?thesis using Some by simp
    qed
  qed
qed

lemma length_strip_chars: "length (strip_chars P s) \<le> length s"
  unfolding strip_chars_def
  using length_dropWhile_le_any[of P "rev (dropWhile P s)"] length_dropWhile_le_any[of P s] by simp

lemma base_label_fixed:
  assumes "base_label b = b"
  shows "re_sub match_version_suffix b = b" and "re_sub match_paren_suffix b = b"
proof -
  let ?s1 = "re_sub match_version_suffix b"
  let ?s2 = "re_sub match_paren_suffix ?s1"
  have "length b \<le> length ?s2" using assms length_strip_chars[of is_space ?s2]
    by (simp add: base_label_def py_strip_def)
  moreover have "length ?s2 \<le> length ?s1" by (rule length_re_sub)
  moreover have "length ?s1 \<le> length b" by (rule length_re_sub)
  ultimately have l1: "length ?s1 = length b" and l2: "length ?s2 = length ?s1" by linarith+
  from l1 show 1: "?s1 = b" by (rule re_sub_same_length)
  from l2 have "?s2 = ?s1" by (rule re_sub_same_length)
  then show "re_sub match_paren_suffix b = b" using 1 by simp
qed


lemma run1_append_keep:
  "x \<in> set u \<Longrightarrow> \<not> P x \<Longrightarrow> run1 P (u @ w) = map_option (\<lambda>r. r @ w) (run1 P u)"
  by (simp add: run1_def takeWhile_append1 dropWhile_append1)

lemma run1_append_stop:
  assumes "\<not> P y"
  shows "run1 P (u @ y # w) = map_option (\<lambda>r. r @ y # w) (run1 P u)"
proof (cases "\<forall>x\<in>set u. P x")
  case True
  then have "takeWhile P u = u" "dropWhile P u = []" by simp_all
  then show ?thesis using True assms by (cases u) (simp_all add: run1_def takeWhile_append dropWhile_append)
next
  case False
  then show ?thesis using assms by (auto simp: run1_def takeWhile_append dropWhile_append)
qed

lemma expect_append_keep:
  "u \<noteq> [] \<Longrightarrow> expect c (u @ w) = map_option (\<lambda>r. r @ w) (expect c u)"
  by (cases u) (auto simp: expect_def)

lemma expect_append_stop:
  "y \<noteq> c \<Longrightarrow> expect c (u @ y # w) = map_option (\<lambda>r. r @ y # w) (expect c u)"
  by (cases u) (auto simp: expect_def)

lemma match_triple_append_stop:
  assumes "\<not> is_digit y" and "y \<noteq> CHR ''.''"
  shows "match_triple (u @ y # w) = map_option (\<lambda>r. r @ y # w) (match_triple u)"
proof -
  have r: "\<And>u. run1 is_digit (u @ y # w) = map_option (\<lambda>r. r @ y # w) (run1 is_digit u)"
    using assms(1) by (rule run1_append_stop)
  have e: "\<And>u. expect CHR ''.'' (u @ y # w) = map_option (\<lambda>r. r @ y # w) (expect CHR ''.'' u)"
    using assms(2) by (rule expect_append_stop)
  show ?thesis
    unfolding match_triple_def
    by (simp add: r e Option.bind_map_option map_option_bind comp_def)
qed


lemma match_version_suffix_append_None:
  assumes u: "u \<noteq> []" and l: "\<not> is_space (last u)" and n: "match_version_suffix u = None"
  shows "match_version_suffix (u @ CHR '' '' # w) = None"
proof -
  let ?w = "CHR '' '' # w"
  have lu: "last u \<in> set u" using u by simp
  have 1: "run1 is_space (u @ ?w) = map_option (\<lambda>r. r @ ?w) (run1 is_space u)"
    using lu l by (rule run1_append_keep)
  show ?thesis
  proof (cases "run1 is_space u")
    case None
    then show ?thesis using 1 by (simp add: match_version_suffix_def)
  next
    case (Some r1)
    then have "r1 = dropWhile is_space u" by (auto simp: run1_def split: if_splits)
    then have r1: "r1 \<noteq> []" using lu l by auto
    have 2: "expect CHR ''v'' (r1 @ ?w) = map_option (\<lambda>r. r @ ?w) (expect CHR ''v'' r1)"
      using r1 by (rule expect_append_keep)
    show ?thesis
    proof (cases "expect CHR ''v'' r1")
      case None
      then show ?thesis using 1 2 Some by (simp add: match_version_suffix_def)
    next
      case e: (Some r2)
      have 3: "match_triple (r2 @ ?w) = map_option (\<lambda>r. r @ ?w) (match_triple r2)"
        by (rule match_triple_append_stop) (simp_all add: is_digit_def)
      show ?thesis
      proof (cases "match_triple r2")
        case None
        then show ?thesis using 1 2 3 Some e by (simp add: match_version_suffix_def)
      next
        case t: (Some r3)
        let ?d = "dropWhile (\<lambda>c. c \<noteq> newline) r3"
        have "at_dollar ?d = None" using n Some e t by (simp add: match_version_suffix_def)
        then have d: "?d \<noteq> []" by (cases "?d = []") (simp_all add: at_dollar_def)
        have "\<not> (\<forall>x\<in>set r3. x \<noteq> newline)"
          using d dropWhile_eq_Nil_conv[of "\<lambda>c. c \<noteq> newline" r3] by blast
        then obtain x where x: "x \<in> set r3" "\<not> x \<noteq> newline" by blast
        have "dropWhile (\<lambda>c. c \<noteq> newline) (r3 @ ?w) = ?d @ ?w"
          using x by (rule dropWhile_append1)
        moreover have "at_dollar (?d @ ?w) = None" using d by (cases ?d) (auto simp: at_dollar_def)
        ultimately show ?thesis using 1 2 3 Some e t by (simp add: match_version_suffix_def)
      qed
    qed
  qed
qed

lemma match_version_suffix_new:
  assumes "strict_triple v"
  shows "match_version_suffix ('' v'' @ v) = Some []"
proof -
  have "run1 is_space ('' v'' @ v) = Some (CHR ''v'' # v)"
    by (simp add: run1_def is_space_def)
  moreover have "match_triple v = Some []" using assms by (simp add: strict_triple_iff_match)
  ultimately show ?thesis by (simp add: match_version_suffix_def expect_def at_dollar_def)
qed

lemma re_sub_version_suffix_appended:
  assumes "strict_triple v"
  shows "re_sub match_version_suffix t = t \<Longrightarrow> (t \<noteq> [] \<Longrightarrow> \<not> is_space (last t)) \<Longrightarrow>
         re_sub match_version_suffix (t @ '' v'' @ v) = t"
proof (induction t)
  case Nil
  show ?case using match_version_suffix_new[OF assms] by simp
next
  case (Cons x t)
  have fx: "match_version_suffix (x # t) = None \<and> re_sub match_version_suffix t = t"
    using Cons.prems(1)
  proof (rule re_sub_fixed_Cons)
    fix r assume "match_version_suffix (x # t) = Some r"
    then have "length r < length (x # t)" by (rule match_version_suffix_shorter)
    then show "length r \<le> length t" by simp
  qed
  have l: "\<not> is_space (last (x # t))" using Cons.prems(2) by simp
  then have "t \<noteq> [] \<Longrightarrow> \<not> is_space (last t)" by simp
  then have ih: "re_sub match_version_suffix (t @ '' v'' @ v) = t" using Cons.IH fx by simp
  have "match_version_suffix ((x # t) @ CHR '' '' # (CHR ''v'' # v)) = None"
    using _ l fx[THEN conjunct1] by (rule match_version_suffix_append_None) simp
  then show ?case using ih by simp
qed

lemma base_label_appended:
  assumes v: "strict_triple v" and b: "base_label b = b" and l: "b \<noteq> [] \<Longrightarrow> \<not> is_space (last b)"
  shows "base_label (b @ '' v'' @ v) = b"
proof -
  have "re_sub match_version_suffix (b @ '' v'' @ v) = b"
    using v base_label_fixed(1)[OF b] l by (rule re_sub_version_suffix_appended)
  then have "base_label (b @ '' v'' @ v) = py_strip (re_sub match_paren_suffix (re_sub match_version_suffix b))"
    using base_label_fixed[OF b] by (simp add: base_label_def)
  then show ?thesis using b by (simp add: base_label_def)
qed

lemma base_label_last: "base_label l \<noteq> [] \<Longrightarrow> \<not> is_space (last (base_label l))"
  unfolding base_label_def py_strip_def by (rule strip_chars_last)

text \<open>
  Claim C4, as amended. The label \<open>Foo v1.2.3\<close> rewritten to version \<open>2.0.0\<close> is
  exactly \<open>Foo v2.0.0\<close>. In general, for a version \<open>v\<close> of the strict three-number
  form and a label whose base (what the two substitutions and the strip leave) is stable,
  that is, has no further version or parenthesised suffix to remove, rewriting the
  rewritten label gives what rewriting the original label gives: the suffix is replaced,
  not accumulated. With \<open>v' = v\<close> this is idempotence.
\<close>

theorem rewrite_label_replaces_suffix:
  "rewrite_label ''2.0.0'' ''Foo v1.2.3'' = ''Foo v2.0.0'' \<and>
   (strict_triple v \<and> base_label (base_label l) = base_label l \<longrightarrow>
      rewrite_label v' (rewrite_label v l) = rewrite_label v' l)"
proof
  show "rewrite_label ''2.0.0'' ''Foo v1.2.3'' = ''Foo v2.0.0''" by code_simp
next
  show "strict_triple v \<and> base_label (base_label l) = base_label l \<longrightarrow>
      rewrite_label v' (rewrite_label v l) = rewrite_label v' l"
  proof
    assume h: "strict_triple v \<and> base_label (base_label l) = base_label l"
    then have "base_label (base_label l @ '' v'' @ v) = base_label l"
      using base_label_last[of l] by (intro base_label_appended) auto
    then show "rewrite_label v' (rewrite_label v l) = rewrite_label v' l"
      by (simp add: rewrite_label_def)
  qed
qed

theorem rewrite_label_replaces_suffix_witness:
  "rewrite_label ''2.0.0'' (rewrite_label ''1.2.3'' ''Foo (beta)'') = ''Foo v2.0.0''"
proof -
  have v: "strict_triple ''1.2.3''" unfolding strict_triple_iff_match by code_simp
  have b: "base_label (base_label ''Foo (beta)'') = base_label ''Foo (beta)''" by code_simp
  have r: "rewrite_label ''2.0.0'' ''Foo (beta)'' = ''Foo v2.0.0''" by code_simp
  show ?thesis
    using rewrite_label_replaces_suffix [of "''1.2.3''" "''Foo (beta)''" "''2.0.0''"] v b r
    by simp
qed

text \<open>
  The rewrite is not idempotent on every label: the second pattern removes one
  parenthesised group only, so a label with two of them loses one per deployment.
\<close>

theorem rewrite_label_not_idempotent:
  "rewrite_label ''2.0.0'' (rewrite_label ''2.0.0'' ''Foo (a) (b)'') \<noteq>
   rewrite_label ''2.0.0'' ''Foo (a) (b)''"
  by code_simp

text \<open>
  Nor does it recognise a version of another shape as one: with the version \<open>1.0\<close>
  the suffix is appended again at every call.
\<close>

lemma rewrite_label_two_part_version:
  "rewrite_label ''1.0'' (rewrite_label ''1.0'' ''Foo'') = ''Foo v1.0 v1.0''"
  by code_simp



section \<open>Structure validation\<close>

lemma first_missing_Some:
  "first_missing t d rels = Some p \<Longrightarrow> p \<in> (\<lambda>r. d @ r) ` set rels \<and> \<not> path_exists t p"
  by (induction rels) (auto split: if_splits)

lemma first_missing_None:
  "first_missing t d rels = None \<longleftrightarrow> (\<forall>r\<in>set rels. path_exists t (d @ r))"
  by (induction rels) auto

lemma validate_app_structure_frame:
  "fs (snd (validate_app_structure src app st)) = fs st \<and>
   backups (snd (validate_app_structure src app st)) = backups st"
  by (simp add: validate_app_structure_def Let_def logmsg_def split: option.splits)

lemma validate_app_structure_True:
  "fst (validate_app_structure src app st) \<longleftrightarrow>
     (\<forall>r\<in>set (required_dirs @ required_files). path_exists (fs st) (src @ [app] @ r))"
proof -
  have "fst (validate_app_structure src app st) \<longleftrightarrow>
      first_missing (fs st) (src @ [app]) required_dirs = None \<and>
      first_missing (fs st) (src @ [app]) required_files = None"
    by (simp add: validate_app_structure_def Let_def logmsg_def split: option.splits)
  then show ?thesis by (auto simp: first_missing_None)
qed

lemma validate_app_structure_message:
  assumes "\<not> fst (validate_app_structure src app st)"
  shows "\<exists>p. \<not> path_exists (fs st) p \<and>
     ((p \<in> (\<lambda>r. src @ [app] @ r) ` set required_dirs \<and>
       last (logged (snd (validate_app_structure src app st))) =
         (ERROR, ''Missing required directory: '' @ show_path p)) \<or>
      (p \<in> (\<lambda>r. src @ [app] @ r) ` set required_files \<and>
       last (logged (snd (validate_app_structure src app st))) =
         (ERROR, ''Missing required file: '' @ show_path p)))"
proof (cases "first_missing (fs st) (src @ [app]) required_dirs")
  case (Some p)
  then have "p \<in> (\<lambda>r. (src @ [app]) @ r) ` set required_dirs \<and> \<not> path_exists (fs st) p"
    by (rule first_missing_Some)
  moreover have "last (logged (snd (validate_app_structure src app st))) =
         (ERROR, ''Missing required directory: '' @ show_path p)"
    using Some by (simp add: validate_app_structure_def Let_def logmsg_def)
  ultimately show ?thesis by auto
next
  case None
  show ?thesis
  proof (cases "first_missing (fs st) (src @ [app]) required_files")
    case (Some p)
    then have "p \<in> (\<lambda>r. (src @ [app]) @ r) ` set required_files \<and> \<not> path_exists (fs st) p"
      by (rule first_missing_Some)
    moreover have "last (logged (snd (validate_app_structure src app st))) =
         (ERROR, ''Missing required file: '' @ show_path p)"
      using Some None by (simp add: validate_app_structure_def Let_def logmsg_def)
    ultimately show ?thesis by auto
  next
    case n2: None
    then have "fst (validate_app_structure src app st)"
      using None by (simp add: validate_app_structure_def Let_def logmsg_def)
    then show ?thesis using assms by simp
  qed
qed

lemma deploy_app_invalid:
  assumes "\<not> fst (validate_app_structure src app (logmsg l m st))"
  shows "deploy_app src app target version ev st =
     (False, logmsg ERROR (''App structure validation failed for '' @ app)
        (snd (validate_app_structure src app
           (logmsg LOG (''Deploying '' @ app @ '' app (v'' @ version @ '')...'') st))))"
proof -
  let ?st0 = "logmsg LOG (''Deploying '' @ app @ '' app (v'' @ version @ '')...'') st"
  have "fs ?st0 = fs (logmsg l m st)" by (simp add: logmsg_def)
  then have "\<not> fst (validate_app_structure src app ?st0)"
    using assms by (simp add: validate_app_structure_True)
  then show ?thesis
    by (cases "validate_app_structure src app ?st0") (simp add: deploy_app_def Let_def)
qed

lemma show_path_render: "show_path p = concat (map (\<lambda>c. CHR ''/'' # c) p)"
  by (simp add: show_path_def)

lemma required_paths:
  "set (required_dirs @ required_files) =
     {[''default''], [''metadata''], [''default'', ''app.conf''], [''metadata'', ''default.meta'']}"
  "(\<lambda>r. src @ [app] @ r) ` set required_dirs = {src @ [app, ''default''], src @ [app, ''metadata'']}"
  "(\<lambda>r. src @ [app] @ r) ` set required_files =
     {src @ [app, ''default'', ''app.conf''], src @ [app, ''metadata'', ''default.meta'']}"
  by (auto simp: required_dirs_def required_files_def)

lemma validate_app_structure_first:
  "(\<not> path_exists (fs st) (src @ [app, ''default'']) \<longrightarrow>
      last (logged (snd (validate_app_structure src app st))) =
        (ERROR, ''Missing required directory: '' @ concat (map (\<lambda>c. CHR ''/'' # c) (src @ [app, ''default''])))) \<and>
   (path_exists (fs st) (src @ [app, ''default'']) \<and> \<not> path_exists (fs st) (src @ [app, ''metadata'']) \<longrightarrow>
      last (logged (snd (validate_app_structure src app st))) =
        (ERROR, ''Missing required directory: '' @ concat (map (\<lambda>c. CHR ''/'' # c) (src @ [app, ''metadata''])))) \<and>
   (path_exists (fs st) (src @ [app, ''default'']) \<and> path_exists (fs st) (src @ [app, ''metadata'']) \<and>
    \<not> path_exists (fs st) (src @ [app, ''default'', ''app.conf'']) \<longrightarrow>
      last (logged (snd (validate_app_structure src app st))) =
        (ERROR, ''Missing required file: '' @
           concat (map (\<lambda>c. CHR ''/'' # c) (src @ [app, ''default'', ''app.conf''])))) \<and>
   (path_exists (fs st) (src @ [app, ''default'']) \<and> path_exists (fs st) (src @ [app, ''metadata'']) \<and>
    path_exists (fs st) (src @ [app, ''default'', ''app.conf'']) \<and>
    \<not> path_exists (fs st) (src @ [app, ''metadata'', ''default.meta'']) \<longrightarrow>
      last (logged (snd (validate_app_structure src app st))) =
        (ERROR, ''Missing required file: '' @
           concat (map (\<lambda>c. CHR ''/'' # c) (src @ [app, ''metadata'', ''default.meta'']))))"
  by (simp add: validate_app_structure_def Let_def logmsg_def required_dirs_def required_files_def
      show_path_def)

text \<open>
  Claim C7. For a unit that lacks one of the four required paths (\<open>default\<close>,
  \<open>metadata\<close>, \<open>default/app.conf\<close>, \<open>metadata/default.meta\<close> under the unit's
  directory), \<open>validate_app_structure\<close> returns False and its last log entry is an
  error that names a required path that is indeed missing, written out with its
  components behind slashes: the first one missing in the order just given, as a missing
  directory for the first two and as a missing file for the other two. \<open>deploy_app\<close>
  then returns False and leaves the file tree and the backup archives as they were, so no
  backup is made and no descriptor is rewritten.
\<close>

theorem invalid_structure_stops_pipeline:
  assumes "rel \<in> {[''default''], [''metadata''], [''default'', ''app.conf''], [''metadata'', ''default.meta'']}"
    and "\<not> path_exists (fs st) (src @ [app] @ rel)"
  shows "\<not> fst (validate_app_structure src app st) \<and>
     (\<exists>p. \<not> path_exists (fs st) p \<and>
        ((p \<in> {src @ [app, ''default''], src @ [app, ''metadata'']} \<and>
          last (logged (snd (validate_app_structure src app st))) =
            (ERROR, ''Missing required directory: '' @ concat (map (\<lambda>c. CHR ''/'' # c) p))) \<or>
         (p \<in> {src @ [app, ''default'', ''app.conf''], src @ [app, ''metadata'', ''default.meta'']} \<and>
          last (logged (snd (validate_app_structure src app st))) =
            (ERROR, ''Missing required file: '' @ concat (map (\<lambda>c. CHR ''/'' # c) p))))) \<and>
     (\<not> path_exists (fs st) (src @ [app, ''default'']) \<longrightarrow>
        last (logged (snd (validate_app_structure src app st))) =
          (ERROR, ''Missing required directory: '' @
             concat (map (\<lambda>c. CHR ''/'' # c) (src @ [app, ''default''])))) \<and>
     (path_exists (fs st) (src @ [app, ''default'']) \<and>
      \<not> path_exists (fs st) (src @ [app, ''metadata'']) \<longrightarrow>
        last (logged (snd (validate_app_structure src app st))) =
          (ERROR, ''Missing required directory: '' @
             concat (map (\<lambda>c. CHR ''/'' # c) (src @ [app, ''metadata''])))) \<and>
     (path_exists (fs st) (src @ [app, ''default'']) \<and> path_exists (fs st) (src @ [app, ''metadata'']) \<and>
      \<not> path_exists (fs st) (src @ [app, ''default'', ''app.conf'']) \<longrightarrow>
        last (logged (snd (validate_app_structure src app st))) =
          (ERROR, ''Missing required file: '' @
             concat (map (\<lambda>c. CHR ''/'' # c) (src @ [app, ''default'', ''app.conf''])))) \<and>
     (path_exists (fs st) (src @ [app, ''default'']) \<and> path_exists (fs st) (src @ [app, ''metadata'']) \<and>
      path_exists (fs st) (src @ [app, ''default'', ''app.conf'']) \<and>
      \<not> path_exists (fs st) (src @ [app, ''metadata'', ''default.meta'']) \<longrightarrow>
        last (logged (snd (validate_app_structure src app st))) =
          (ERROR, ''Missing required file: '' @
             concat (map (\<lambda>c. CHR ''/'' # c) (src @ [app, ''metadata'', ''default.meta''])))) \<and>
     \<not> fst (deploy_app src app target version ev st) \<and>
     fs (snd (deploy_app src app target version ev st)) = fs st \<and>
     backups (snd (deploy_app src app target version ev st)) = backups st"
proof -
  have r: "rel \<in> set (required_dirs @ required_files)"
    using assms(1) unfolding required_paths(1) .
  have v: "\<not> fst (validate_app_structure src app st)"
    using r assms(2) by (auto simp: validate_app_structure_True)
  have "fs (logmsg LOG [] st) = fs st" by (simp add: logmsg_def)
  then have "\<not> fst (validate_app_structure src app (logmsg LOG [] st))"
    using r assms(2) by (auto simp: validate_app_structure_True)
  then have d: "deploy_app src app target version ev st =
     (False, logmsg ERROR (''App structure validation failed for '' @ app)
        (snd (validate_app_structure src app
           (logmsg LOG (''Deploying '' @ app @ '' app (v'' @ version @ '')...'') st))))"
    by (rule deploy_app_invalid)
  have f: "fs (snd (deploy_app src app target version ev st)) = fs st \<and>
     backups (snd (deploy_app src app target version ev st)) = backups st"
    unfolding d using validate_app_structure_frame[of src app "logmsg LOG (''Deploying '' @ app @ '' app (v'' @ version @ '')...'') st"]
    by (simp add: logmsg_def)
  have nd: "\<not> fst (deploy_app src app target version ev st)" unfolding d by simp
  have m: "\<exists>p. \<not> path_exists (fs st) p \<and>
        ((p \<in> {src @ [app, ''default''], src @ [app, ''metadata'']} \<and>
          last (logged (snd (validate_app_structure src app st))) =
            (ERROR, ''Missing required directory: '' @ concat (map (\<lambda>c. CHR ''/'' # c) p))) \<or>
         (p \<in> {src @ [app, ''default'', ''app.conf''], src @ [app, ''metadata'', ''default.meta'']} \<and>
          last (logged (snd (validate_app_structure src app st))) =
            (ERROR, ''Missing required file: '' @ concat (map (\<lambda>c. CHR ''/'' # c) p))))"
    using validate_app_structure_message[OF v]
    unfolding required_paths(2,3) show_path_render .
  note c = validate_app_structure_first[of st src app]
  show ?thesis
    by (intro conjI v m c[THEN conjunct1] c[THEN conjunct2, THEN conjunct1]
        c[THEN conjunct2, THEN conjunct2, THEN conjunct1]
        c[THEN conjunct2, THEN conjunct2, THEN conjunct2] nd f[THEN conjunct1] f[THEN conjunct2])
qed

theorem invalid_structure_stops_pipeline_witness:
  "\<not> fst (validate_app_structure [''src''] ''appB'' sample_state) \<and>
   last (logged (snd (validate_app_structure [''src''] ''appB'' sample_state))) =
     (ERROR, ''Missing required directory: /src/appB/metadata'') \<and>
   \<not> fst (deploy_app [''src''] ''appB'' [''opt'', ''appB''] ''1.0.0'' sample_env sample_state) \<and>
   fs (snd (deploy_app [''src''] ''appB'' [''opt'', ''appB''] ''1.0.0'' sample_env sample_state)) = sample_tree \<and>
   backups (snd (deploy_app [''src''] ''appB'' [''opt'', ''appB''] ''1.0.0'' sample_env sample_state)) = []"
proof -
  have 1: "[''metadata''] \<in> {[''default''], [''metadata''], [''default'', ''app.conf''], [''metadata'', ''default.meta'']}"
    by simp
  have 2: "\<not> path_exists (fs sample_state) ([''src''] @ [''appB''] @ [''metadata''])"
    by (simp add: sample_state_def sample_tree_def path_exists_def)
  have 3: "path_exists (fs sample_state) ([''src''] @ [''appB'', ''default'']) \<and>
           \<not> path_exists (fs sample_state) ([''src''] @ [''appB'', ''metadata''])"
    by (simp add: sample_state_def sample_tree_def path_exists_def)
  have a: "\<not> fst (validate_app_structure [''src''] ''appB'' sample_state)"
    by (rule invalid_structure_stops_pipeline [OF 1 2, of "[''opt'', ''appB'']" "''1.0.0''" sample_env, THEN conjunct1])
  have "last (logged (snd (validate_app_structure [''src''] ''appB'' sample_state))) =
          (ERROR, ''Missing required directory: '' @
             concat (map (\<lambda>c. CHR ''/'' # c) ([''src''] @ [''appB'', ''metadata''])))"
    by (rule invalid_structure_stops_pipeline [OF 1 2, of "[''opt'', ''appB'']" "''1.0.0''" sample_env, THEN conjunct2, THEN conjunct2, THEN conjunct2, THEN conjunct1, THEN mp, OF 3])
  then have b: "last (logged (snd (validate_app_structure [''src''] ''appB'' sample_state))) =
     (ERROR, ''Missing required directory: /src/appB/metadata'')" by simp
  have c: "\<not> fst (deploy_app [''src''] ''appB'' [''opt'', ''appB''] ''1.0.0'' sample_env sample_state) \<and>
     fs (snd (deploy_app [''src''] ''appB'' [''opt'', ''appB''] ''1.0.0'' sample_env sample_state)) = fs sample_state \<and>
     backups (snd (deploy_app [''src''] ''appB'' [''opt'', ''appB''] ''1.0.0'' sample_env sample_state)) = backups sample_state"
    by (rule invalid_structure_stops_pipeline [OF 1 2, of "[''opt'', ''appB'']" "''1.0.0''" sample_env, THEN conjunct2, THEN conjunct2, THEN conjunct2, THEN conjunct2, THEN conjunct2, THEN conjunct2])
  show ?thesis using a b c by (simp add: sample_state_def)
qed


section \<open>Listing the deployable apps\<close>

lemma is_app_iff:
  "is_app (name, n) \<longleftrightarrow> (\<exists>sub. n = Dir sub \<and> path_exists (Dir sub) [''default'', ''app.conf''])"
  by (cases n) (simp_all add: is_app_def)

text \<open>
  Claim C10. For a source root that does not exist \<open>list_available_apps\<close> returns the
  empty list, without an error. For a source root that is a directory it returns, in
  ascending lexicographic order, exactly the names of the entries that are directories
  and contain \<open>default/app.conf\<close>, each once when the entry names are distinct.
\<close>

theorem list_available_apps_sorted:
  "(\<not> path_exists tree src \<longrightarrow> list_available_apps src tree = Inr []) \<and>
   (lookup tree src = Some (Dir es) \<longrightarrow>
      (\<exists>apps. list_available_apps src tree = Inr apps \<and> sorted apps \<and>
         set apps = {name. \<exists>sub. (name, Dir sub) \<in> set es \<and>
                        path_exists (Dir sub) [''default'', ''app.conf'']} \<and>
         (distinct (map fst es) \<longrightarrow> distinct apps)))"
proof (intro conjI impI)
  show "list_available_apps src tree = Inr []" if "\<not> path_exists tree src"
    using that by (simp add: list_available_apps_def)
next
  assume h: "lookup tree src = Some (Dir es)"
  let ?apps = "sort (map fst (filter is_app es))"
  have 1: "list_available_apps src tree = Inr ?apps"
    using h by (simp add: list_available_apps_def path_exists_def)
  have "set ?apps = fst ` {e \<in> set es. is_app e}" by simp
  also have "\<dots> = {name. \<exists>n. (name, n) \<in> set es \<and> is_app (name, n)}" by force
  also have "\<dots> = {name. \<exists>sub. (name, Dir sub) \<in> set es \<and>
                        path_exists (Dir sub) [''default'', ''app.conf'']}"
    unfolding is_app_iff by blast
  finally have 2: "set ?apps = {name. \<exists>sub. (name, Dir sub) \<in> set es \<and>
                        path_exists (Dir sub) [''default'', ''app.conf'']}" .
  have 3: "distinct (map fst es) \<longrightarrow> distinct ?apps"
    by (simp add: distinct_map_filter)
  show "\<exists>apps. list_available_apps src tree = Inr apps \<and> sorted apps \<and>
         set apps = {name. \<exists>sub. (name, Dir sub) \<in> set es \<and>
                        path_exists (Dir sub) [''default'', ''app.conf'']} \<and>
         (distinct (map fst es) \<longrightarrow> distinct apps)"
    using 1 2 3 by (intro exI[of _ ?apps]) simp
qed

theorem list_available_apps_sorted_witness:
  "list_available_apps [''nowhere''] sample_tree = Inr [] \<and>
   (\<exists>apps. list_available_apps [''src''] sample_tree = Inr apps \<and> sorted apps \<and>
      ''appA'' \<in> set apps \<and> ''notes.txt'' \<notin> set apps \<and> distinct apps)"
proof -
  let ?es = "[(''appB'', Dir [(''default'', Dir [(''app.conf'', File sample_conf)])]),
              (''appA'', sample_app), (''notes.txt'', File [])]"
  have 1: "\<not> path_exists sample_tree [''nowhere'']"
    by (simp add: path_exists_def sample_tree_def)
  have 2: "lookup sample_tree [''src''] = Some (Dir ?es)"
    by (simp add: sample_tree_def)
  have 3: "distinct (map fst ?es)" by simp
  have 4: "\<exists>sub. (''appA'', Dir sub) \<in> set ?es \<and> path_exists (Dir sub) [''default'', ''app.conf'']"
    by (simp add: sample_app_def path_exists_def)
  have 5: "\<not> (\<exists>sub. (''notes.txt'', Dir sub) \<in> set ?es \<and> path_exists (Dir sub) [''default'', ''app.conf''])"
    by (simp add: sample_app_def)
  from list_available_apps_sorted [of sample_tree "[''src'']" ?es] 2 3
  obtain apps where a: "list_available_apps [''src''] sample_tree = Inr apps" "sorted apps"
    "set apps = {name. \<exists>sub. (name, Dir sub) \<in> set ?es \<and>
                        path_exists (Dir sub) [''default'', ''app.conf'']}" "distinct apps"
    by blast
  have "''appA'' \<in> set apps" unfolding a(3) using 4 by blast
  moreover have "''notes.txt'' \<notin> set apps" unfolding a(3) using 5 by blast
  ultimately show ?thesis
    using list_available_apps_sorted [of sample_tree "[''nowhere'']"] 1 a by blast
qed


section \<open>Backup before replacement\<close>

lemma logmsg_frame: "fs (logmsg l m st) = fs st" "backups (logmsg l m st) = backups st"
  by (simp_all add: logmsg_def)

lemma backup_existing_app_absent:
  "lookup (fs st) (dir @ [app]) = None \<Longrightarrow>
   backup_existing_app app dir ev st =
     (True, logmsg LOG (''No existing '' @ app @ '' app found to backup'') st)"
  by (simp add: backup_existing_app_def)

lemma backup_existing_app_fs: "fs (snd (backup_existing_app app dir ev st)) = fs st"
  by (simp add: backup_existing_app_def Let_def logmsg_frame split: option.splits tar_fault.splits)

lemma backup_existing_app_present:
  assumes "lookup (fs st) (dir @ [app]) = Some existing"
  shows "fst (backup_existing_app app dir ev st) \<longleftrightarrow> tar_fault ev = Tar_ok"
    and "fst (backup_existing_app app dir ev st) \<Longrightarrow>
         map_of (backups (snd (backup_existing_app app dir ev st))) (backup_name app ev) = Some (Some existing)"
  using assms
  by (simp_all add: backup_existing_app_def Let_def logmsg_frame update_conv' split: tar_fault.splits)

lemma update_app_version_backups:
  "backups (snd (update_app_version src app version ev st)) = backups st"
  by (simp add: update_app_version_def Let_def logmsg_frame split: sum.splits prod.splits option.splits)

lemma replace_app_backups:
  "backups (snd (replace_app src app target ev st)) = backups st"
  by (simp add: replace_app_def Let_def logmsg_frame split: sum.splits)

lemma deploy_app_cases:
  obtains (invalid) st1 where
      "validate_app_structure src app (logmsg LOG (''Deploying '' @ app @ '' app (v'' @ version @ '')...'') st) = (False, st1)"
      "deploy_app src app target version ev st = (False, logmsg ERROR (''App structure validation failed for '' @ app) st1)"
  | (no_backup) st1 st2 where
      "validate_app_structure src app (logmsg LOG (''Deploying '' @ app @ '' app (v'' @ version @ '')...'') st) = (True, st1)"
      "backup_existing_app app (butlast target) ev st1 = (False, st2)"
      "deploy_app src app target version ev st = (False, logmsg ERROR (''Backup failed for '' @ app) st2)"
  | (no_update) st1 st2 st3 where
      "validate_app_structure src app (logmsg LOG (''Deploying '' @ app @ '' app (v'' @ version @ '')...'') st) = (True, st1)"
      "backup_existing_app app (butlast target) ev st1 = (True, st2)"
      "update_app_version src app version ev st2 = (False, st3)"
      "deploy_app src app target version ev st = (False, logmsg ERROR (''Version update failed for '' @ app) st3)"
  | (replace) st1 st2 st3 where
      "validate_app_structure src app (logmsg LOG (''Deploying '' @ app @ '' app (v'' @ version @ '')...'') st) = (True, st1)"
      "backup_existing_app app (butlast target) ev st1 = (True, st2)"
      "update_app_version src app version ev st2 = (True, st3)"
      "deploy_app src app target version ev st = replace_app src app target ev st3"
proof -
  let ?st0 = "logmsg LOG (''Deploying '' @ app @ '' app (v'' @ version @ '')...'') st"
  obtain b1 st1 where v: "validate_app_structure src app ?st0 = (b1, st1)" by (cases "validate_app_structure src app ?st0")
  obtain b2 st2 where b: "backup_existing_app app (butlast target) ev st1 = (b2, st2)" by (cases "backup_existing_app app (butlast target) ev st1")
  obtain b3 st3 where u: "update_app_version src app version ev st2 = (b3, st3)" by (cases "update_app_version src app version ev st2")
  show ?thesis
  proof (cases b1)
    case False
    then show ?thesis using v invalid by (simp add: deploy_app_def Let_def)
  next
    case t1: True
    show ?thesis
    proof (cases b2)
      case False
      then show ?thesis using v b t1 no_backup by (simp add: deploy_app_def Let_def)
    next
      case t2: True
      show ?thesis
      proof (cases b3)
        case False
        then show ?thesis using v b u t1 t2 no_update by (simp add: deploy_app_def Let_def)
      next
        case True
        then show ?thesis using v b u t1 t2 replace by (simp add: deploy_app_def Let_def)
      qed
    qed
  qed
qed

text \<open>
  Claim C1. \<open>deploy_app\<close> is called with the target \<open>splunk_apps_dir / app\<close>, whose
  parent joined with the app name is the target again. If something exists at the target
  before the call, then whenever the call succeeds or has changed the file tree at all
  (the removal and the copy at the target included), the backup directory holds a
  complete archive of exactly what was at the target before the call; and if the archive
  cannot be created, \<open>deploy_app\<close> returns False and the file tree is what it was. If
  nothing exists at the target, the set of archives stays as it was and
  \<open>backup_existing_app\<close> returns True after writing one log line.
\<close>

theorem backup_before_replace:
  "(lookup (fs st) (apps_dir @ [app]) = Some existing \<longrightarrow>
      ((fst (deploy_app src app (apps_dir @ [app]) version ev st) \<or>
        fs (snd (deploy_app src app (apps_dir @ [app]) version ev st)) \<noteq> fs st) \<longrightarrow>
       map_of (backups (snd (deploy_app src app (apps_dir @ [app]) version ev st))) (backup_name app ev)
         = Some (Some existing)) \<and>
      (tar_fault ev \<noteq> Tar_ok \<longrightarrow>
         \<not> fst (deploy_app src app (apps_dir @ [app]) version ev st) \<and>
         fs (snd (deploy_app src app (apps_dir @ [app]) version ev st)) = fs st)) \<and>
   (lookup (fs st) (apps_dir @ [app]) = None \<longrightarrow>
      backups (snd (deploy_app src app (apps_dir @ [app]) version ev st)) = backups st \<and>
      backup_existing_app app apps_dir ev st =
        (True, logmsg LOG (''No existing '' @ app @ '' app found to backup'') st))"
proof -
  let ?T = "apps_dir @ [app]"
  let ?st0 = "logmsg LOG (''Deploying '' @ app @ '' app (v'' @ version @ '')...'') st"
  let ?r = "deploy_app src app ?T version ev st"
  have bl: "butlast ?T = apps_dir" by simp
  have vf: "\<And>b st1. validate_app_structure src app ?st0 = (b, st1) \<Longrightarrow> fs st1 = fs st \<and> backups st1 = backups st"
    using validate_app_structure_frame[of src app ?st0] by (simp add: logmsg_frame)
  have present: "(fst ?r \<or> fs (snd ?r) \<noteq> fs st) \<longrightarrow>
       map_of (backups (snd ?r)) (backup_name app ev) = Some (Some existing)"
     and fails: "tar_fault ev \<noteq> Tar_ok \<longrightarrow> \<not> fst ?r \<and> fs (snd ?r) = fs st"
    if ex: "lookup (fs st) ?T = Some existing"
  proof -
    show "(fst ?r \<or> fs (snd ?r) \<noteq> fs st) \<longrightarrow>
       map_of (backups (snd ?r)) (backup_name app ev) = Some (Some existing)"
    proof (cases rule: deploy_app_cases[of src app version st ?T ev])
      case (invalid st1)
      then show ?thesis using vf[OF invalid(1)] by (simp add: logmsg_frame)
    next
      case (no_backup st1 st2)
      then show ?thesis using vf[OF no_backup(1)] backup_existing_app_fs[of app apps_dir ev st1]
        by (simp add: logmsg_frame bl)
    next
      case (no_update st1 st2 st3)
      have e: "lookup (fs st1) (apps_dir @ [app]) = Some existing" using vf[OF no_update(1)] ex by simp
      have "map_of (backups st2) (backup_name app ev) = Some (Some existing)"
        using backup_existing_app_present(2)[OF e, of ev] no_update(2) by (simp add: bl)
      moreover have "backups st3 = backups st2"
        using update_app_version_backups[of src app version ev st2] no_update(3) by simp
      ultimately show ?thesis using no_update(4) by (simp add: logmsg_frame)
    next
      case (replace st1 st2 st3)
      have e: "lookup (fs st1) (apps_dir @ [app]) = Some existing" using vf[OF replace(1)] ex by simp
      have "map_of (backups st2) (backup_name app ev) = Some (Some existing)"
        using backup_existing_app_present(2)[OF e, of ev] replace(2) by (simp add: bl)
      moreover have "backups st3 = backups st2"
        using update_app_version_backups[of src app version ev st2] replace(3) by simp
      ultimately show ?thesis using replace(4) by (simp add: replace_app_backups)
    qed
    show "tar_fault ev \<noteq> Tar_ok \<longrightarrow> \<not> fst ?r \<and> fs (snd ?r) = fs st"
    proof
      assume tf: "tar_fault ev \<noteq> Tar_ok"
      show "\<not> fst ?r \<and> fs (snd ?r) = fs st"
      proof (cases rule: deploy_app_cases[of src app version st ?T ev])
        case (invalid st1)
        then show ?thesis using vf[OF invalid(1)] by (simp add: logmsg_frame)
      next
        case (no_backup st1 st2)
        then show ?thesis using vf[OF no_backup(1)] backup_existing_app_fs[of app apps_dir ev st1]
          by (simp add: logmsg_frame bl)
      next
        case (no_update st1 st2 st3)
        have e: "lookup (fs st1) (apps_dir @ [app]) = Some existing" using vf[OF no_update(1)] ex by simp
        then show ?thesis using backup_existing_app_present(1)[OF e, of ev] no_update(2) tf by (simp add: bl)
      next
        case (replace st1 st2 st3)
        have e: "lookup (fs st1) (apps_dir @ [app]) = Some existing" using vf[OF replace(1)] ex by simp
        then show ?thesis using backup_existing_app_present(1)[OF e, of ev] replace(2) tf by (simp add: bl)
      qed
    qed
  qed
  have absent: "backups (snd ?r) = backups st"
    if ab: "lookup (fs st) ?T = None"
  proof (cases rule: deploy_app_cases[of src app version st ?T ev])
    case (invalid st1)
    then show ?thesis using vf[OF invalid(1)] by (simp add: logmsg_frame)
  next
    case (no_backup st1 st2)
    have "lookup (fs st1) (apps_dir @ [app]) = None" using vf[OF no_backup(1)] ab by simp
    then show ?thesis using backup_existing_app_absent[of st1 apps_dir app ev] no_backup(2) by (simp add: bl)
  next
    case (no_update st1 st2 st3)
    have "lookup (fs st1) (apps_dir @ [app]) = None" using vf[OF no_update(1)] ab by simp
    then have "backups st2 = backups st"
      using backup_existing_app_absent[of st1 apps_dir app ev] no_update(2) vf[OF no_update(1)]
      by (auto simp: bl logmsg_frame)
    moreover have "backups st3 = backups st2"
      using update_app_version_backups[of src app version ev st2] no_update(3) by simp
    ultimately show ?thesis using no_update(4) by (simp add: logmsg_frame)
  next
    case (replace st1 st2 st3)
    have "lookup (fs st1) (apps_dir @ [app]) = None" using vf[OF replace(1)] ab by simp
    then have "backups st2 = backups st"
      using backup_existing_app_absent[of st1 apps_dir app ev] replace(2) vf[OF replace(1)]
      by (auto simp: bl logmsg_frame)
    moreover have "backups st3 = backups st2"
      using update_app_version_backups[of src app version ev st2] replace(3) by simp
    ultimately show ?thesis using replace(4) by (simp add: replace_app_backups)
  qed
  show ?thesis using present fails absent backup_existing_app_absent[of st apps_dir app ev] by blast
qed


theorem backup_before_replace_witness:
  "fst (deploy_app [''src''] ''appA'' ([''opt''] @ [''appA'']) ''2.0.0'' sample_env sample_state) \<and>
   map_of (backups (snd (deploy_app [''src''] ''appA'' ([''opt''] @ [''appA'']) ''2.0.0'' sample_env sample_state)))
     (backup_name ''appA'' sample_env) = Some (Some sample_old_app) \<and>
   \<not> fst (deploy_app [''src''] ''appA'' ([''opt''] @ [''appA'']) ''2.0.0''
            (sample_env\<lparr>tar_fault := Tar_add_fails\<rparr>) sample_state) \<and>
   backups (snd (deploy_app [''src''] ''appB'' ([''opt''] @ [''appB'']) ''2.0.0'' sample_env sample_state)) = []"
proof -
  have 1: "lookup (fs sample_state) ([''opt''] @ [''appA'']) = Some sample_old_app"
    by (simp add: sample_state_def sample_tree_def)
  have 2: "lookup (fs sample_state) ([''opt''] @ [''appB'']) = None"
    by (simp add: sample_state_def sample_tree_def)
  have 3: "fst (deploy_app [''src''] ''appA'' ([''opt''] @ [''appA'']) ''2.0.0'' sample_env sample_state)"
    by code_simp
  have 4: "tar_fault (sample_env\<lparr>tar_fault := Tar_add_fails\<rparr>) \<noteq> Tar_ok" by simp
  show ?thesis
    using backup_before_replace [of sample_state "[''opt'']" "''appA''" sample_old_app "[''src'']" "''2.0.0''" sample_env]
      backup_before_replace [of sample_state "[''opt'']" "''appA''" sample_old_app "[''src'']" "''2.0.0''"
        "sample_env\<lparr>tar_fault := Tar_add_fails\<rparr>"]
      backup_before_replace [of sample_state "[''opt'']" "''appB''" sample_old_app "[''src'']" "''2.0.0''" sample_env]
      1 2 3 4
    by (simp add: sample_state_def)
qed


section \<open>Reading the version\<close>

lemma interpolate_some_plain:
  "CHR ''%'' \<notin> set v \<Longrightarrow> interpolate_some d m v = Inr v"
proof -
  assume "CHR ''%'' \<notin> set v"
  then have "dropWhile (\<lambda>c. c \<noteq> CHR ''%'') v = []" by (auto simp: dropWhile_eq_Nil_conv)
  then show ?thesis by (subst interpolate_some.simps) simp
qed

lemma key_in_iff: "k \<in> fst ` set xs \<longleftrightarrow> map_of xs k \<noteq> None"
  by (simp add: map_of_eq_None_iff)

lemma has_section_iff: "has_section c s \<longleftrightarrow> map_of (sections c) s \<noteq> None"
  by (simp add: has_section_def key_in_iff)

lemma has_option_raw:
  assumes "has_section c s" and "s \<noteq> []" and "s \<noteq> default_section"
  shows "has_option c s opt \<longleftrightarrow> config_get_raw c s opt \<noteq> None"
proof -
  obtain items where i: "map_of (sections c) s = Some items"
    using assms(1) by (auto simp: has_section_iff)
  show ?thesis using assms(2,3) i
    unfolding has_option_def config_get_raw_def unify_values_def key_in_iff
    by (auto simp: map_add_def split: option.splits)
qed

lemma config_get_plain:
  assumes "config_get_raw c s opt = Some v" and "CHR ''%'' \<notin> set v"
  shows "config_get c s opt = Inr v"
  using assms
  by (auto simp: config_get_raw_def config_get_def interpolate_some_plain split: sum.splits option.splits)


lemma launcher_install_names:
  "''launcher'' \<noteq> default_section" "''install'' \<noteq> default_section"
  by (simp_all add: default_section_def)








section \<open>Writing the descriptor\<close>

lemma lookup_put_same: "put t p n = Some t' \<Longrightarrow> lookup t' p = Some n"
proof (induction t p n arbitrary: t' rule: put.induct)
  case (4 es c c' cs n)
  then obtain child child' where c: "map_of es c = Some child" "put child (c' # cs) n = Some child'"
    "t' = Dir (AList.update c child' es)"
    by (auto split: option.splits)
  then have "lookup child' (c' # cs) = Some n" using 4 by simp
  then show ?case using c by (simp add: update_conv')
qed (auto simp: update_conv')

lemma put_put: "put t p n = Some t' \<Longrightarrow> put t' p n' = put t p n'"
proof (induction t p n arbitrary: t' rule: put.induct)
  case (4 es c c' cs n)
  then obtain child child' where c: "map_of es c = Some child" "put child (c' # cs) n = Some child'"
    "t' = Dir (AList.update c child' es)"
    by (auto split: option.splits)
  then have "put child' (c' # cs) n' = put child (c' # cs) n'" using 4 by simp
  then show ?case using c by (simp add: update_conv' split: option.splits)
qed auto

lemma put_defined: "put t p n = Some t' \<Longrightarrow> \<exists>t''. put t p n' = Some t''"
proof (induction t p n arbitrary: t' rule: put.induct)
  case (4 es c c' cs n)
  then obtain child child' where c: "map_of es c = Some child" "put child (c' # cs) n = Some child'"
    by (auto split: option.splits)
  then obtain t'' where "put child (c' # cs) n' = Some t''" using 4 by blast
  then show ?case using c by simp
qed auto

lemma write_back_cases:
  "write_back fault tree p chunks = (t, e) \<Longrightarrow>
     (t = tree \<and> e = Some OSError) \<or>
     (e = None \<and> put tree p (File chunks) = Some t) \<or>
     (\<exists>k. fault = Write_fails k \<and> k < length chunks \<and> e = Some OSError \<and>
          put tree p (File (take k chunks)) = Some t)"
proof -
  assume w: "write_back fault tree p chunks = (t, e)"
  let ?o = "if fault = Open_fails then None
            else case lookup tree p of Some (Dir es) \<Rightarrow> None | _ \<Rightarrow> put tree p (File [])"
  show ?thesis
  proof (cases ?o)
    case None
    then show ?thesis using w unfolding write_back_def by simp
  next
    case (Some opened)
    then have o: "put tree p (File []) = Some opened"
      by (auto split: if_splits option.splits node.splits)
    have pp: "\<And>n. put opened p n = put tree p n" using o by (rule put_put)
    obtain tc where tc: "put tree p (File chunks) = Some tc" using put_defined[OF o] by blast
    show ?thesis
    proof (cases fault)
      case (Write_fails k)
      obtain tk where tk: "put tree p (File (take k chunks)) = Some tk" using put_defined[OF o] by blast
      show ?thesis using w Some Write_fails tc tk unfolding write_back_def
        by (auto simp: pp split: if_splits)
    next
      case No_fault
      then show ?thesis using w Some tc unfolding write_back_def by (auto simp: pp)
    next
      case Open_fails
      then show ?thesis using Some by simp
    qed
  qed
qed


lemma then_do_Inr: "then_do x f = Inr b \<longleftrightarrow> (\<exists>a. x = Inr a \<and> f a = Inr b)"
  by (cases x) (simp_all add: then_do_def)

lemma update_app_version_cases:
  obtains (untouched) "\<not> fst (update_app_version src app version ev st)"
      "fs (snd (update_app_version src app version ev st)) = fs st"
  | (written) c c' t e where
      "path_exists (fs st) (app_conf_path src app)"
      "config_read (fs st) (app_conf_path src app) = Inr c"
      "updated_config c version (build_num ev) = Inr c'"
      "write_back (conf_fault ev) (fs st) (app_conf_path src app) (config_write c') = (t, e)"
      "fst (update_app_version src app version ev st) \<longleftrightarrow> e = None"
      "fs (snd (update_app_version src app version ev st)) = t"
proof (cases "path_exists (fs st) (app_conf_path src app)")
  case False
  then show ?thesis using untouched by (simp add: update_app_version_def Let_def logmsg_frame)
next
  case True
  let ?p = "app_conf_path src app"
  show ?thesis
  proof (cases "then_do (config_read (fs st) ?p) (\<lambda>c. updated_config c version (build_num ev))")
    case (Inl e)
    then show ?thesis using True untouched
      by (simp add: update_app_version_def Let_def logmsg_frame)
  next
    case (Inr c')
    then obtain c where c: "config_read (fs st) ?p = Inr c" "updated_config c version (build_num ev) = Inr c'"
      by (auto simp: then_do_Inr)
    obtain t e where w: "write_back (conf_fault ev) (fs st) ?p (config_write c') = (t, e)"
      by (cases "write_back (conf_fault ev) (fs st) ?p (config_write c')")
    have "fst (update_app_version src app version ev st) \<longleftrightarrow> e = None"
      "fs (snd (update_app_version src app version ev st)) = t"
      using True Inr w by (cases e; simp add: update_app_version_def Let_def logmsg_frame)+
    then show ?thesis using written True c w by blast
  qed
qed

text \<open>
  Claim C3, as amended. \<open>update_app_version\<close> rewrites the descriptor in place: it
  opens the file for writing, which truncates it, and writes the new content piece by
  piece; there is no temporary file. When it returns True the descriptor holds the
  complete new content. When it returns False, either the file tree is exactly what it
  was (the failure came before the file was opened, or the file could not be opened), or
  a write failed and the descriptor holds the pieces written before the failure.
\<close>

theorem update_app_version_in_place:
  "(fst (update_app_version src app version ev st) \<longrightarrow>
      (\<exists>c c'. config_read (fs st) (app_conf_path src app) = Inr c \<and>
         updated_config c version (build_num ev) = Inr c' \<and>
         lookup (fs (snd (update_app_version src app version ev st))) (app_conf_path src app)
           = Some (File (config_write c')))) \<and>
   (\<not> fst (update_app_version src app version ev st) \<longrightarrow>
      fs (snd (update_app_version src app version ev st)) = fs st \<or>
      (\<exists>k c c'. conf_fault ev = Write_fails k \<and>
         config_read (fs st) (app_conf_path src app) = Inr c \<and>
         updated_config c version (build_num ev) = Inr c' \<and>
         k < length (config_write c') \<and>
         lookup (fs (snd (update_app_version src app version ev st))) (app_conf_path src app)
           = Some (File (take k (config_write c')))))"
proof (cases rule: update_app_version_cases[of src app version ev st])
  case untouched
  then show ?thesis by simp
next
  case (written c c' t e)
  from write_back_cases[OF written(4)] show ?thesis
  proof (elim disjE exE conjE)
    assume "t = fs st" "e = Some OSError"
    then show ?thesis using written by simp
  next
    assume "e = None" "put (fs st) (app_conf_path src app) (File (config_write c')) = Some t"
    then show ?thesis using written lookup_put_same by auto
  next
    fix k
    assume "conf_fault ev = Write_fails k" "k < length (config_write c')" "e = Some OSError"
      "put (fs st) (app_conf_path src app) (File (take k (config_write c'))) = Some t"
    then show ?thesis using written lookup_put_same by auto
  qed
qed

theorem update_app_version_in_place_witness:
  "lookup (fs (snd (update_app_version [''src''] ''appA'' ''2.0.0'' sample_env sample_state)))
     (app_conf_path [''src''] ''appA'') =
   Some (File [Header ''ui'', Item ''is_visible'' ''true'', Skipped [],
               Header ''launcher'', Item ''author'' ''ops'', Item ''version'' ''2.0.0'',
               Item ''label'' ''App A v2.0.0'', Skipped [],
               Header ''install'', Item ''build'' ''202611040930'', Skipped []])"
proof -
  let ?c = "\<lparr>defaults = [], sections = [(''ui'', [(''is_visible'', ''true'')]),
     (''launcher'', [(''author'', ''ops''), (''version'', ''1.0.0''), (''label'', ''App A v1.0.0'')])]\<rparr>"
  let ?c' = "\<lparr>defaults = [], sections = [(''ui'', [(''is_visible'', ''true'')]),
     (''launcher'', [(''author'', ''ops''), (''version'', ''2.0.0''), (''label'', ''App A v2.0.0'')]),
     (''install'', [(''build'', ''202611040930'')])]\<rparr>"
  have 1: "fst (update_app_version [''src''] ''appA'' ''2.0.0'' sample_env sample_state)"
    by code_simp
  have 2: "config_read (fs sample_state) (app_conf_path [''src''] ''appA'') = Inr ?c"
    by code_simp
  have 3: "updated_config ?c ''2.0.0'' (build_num sample_env) = Inr ?c'"
    by code_simp
  have 4: "config_write ?c' = [Header ''ui'', Item ''is_visible'' ''true'', Skipped [],
               Header ''launcher'', Item ''author'' ''ops'', Item ''version'' ''2.0.0'',
               Item ''label'' ''App A v2.0.0'', Skipped [],
               Header ''install'', Item ''build'' ''202611040930'', Skipped []]"
    by code_simp
  from update_app_version_in_place [of "[''src'']" "''appA''" "''2.0.0''" sample_env sample_state] 1
  obtain c c' where "config_read (fs sample_state) (app_conf_path [''src''] ''appA'') = Inr c"
    "updated_config c ''2.0.0'' (build_num sample_env) = Inr c'"
    "lookup (fs (snd (update_app_version [''src''] ''appA'' ''2.0.0'' sample_env sample_state)))
       (app_conf_path [''src''] ''appA'') = Some (File (config_write c'))"
    by blast
  then show ?thesis using 2 3 4 by simp
qed

text \<open>
  A failure of the third write leaves two lines of the new content in the descriptor of
  the sample app: neither what the file held before nor what a complete write leaves.
\<close>

theorem update_app_version_partial_write:
  "lookup (fs (snd (update_app_version [''src''] ''appA'' ''2.0.0''
       (sample_env\<lparr>conf_fault := Write_fails 2\<rparr>) sample_state))) (app_conf_path [''src''] ''appA'')
     = Some (File [Header ''ui'', Item ''is_visible'' ''true'']) \<and>
   lookup (fs sample_state) (app_conf_path [''src''] ''appA'') = Some (File sample_conf) \<and>
   File [Header ''ui'', Item ''is_visible'' ''true''] \<noteq> File sample_conf \<and>
   lookup (fs (snd (update_app_version [''src''] ''appA'' ''2.0.0'' sample_env sample_state)))
     (app_conf_path [''src''] ''appA'')
     \<noteq> Some (File [Header ''ui'', Item ''is_visible'' ''true''])"
  by code_simp



section \<open>The session\<close>

lemma logged_logmsg: "logged (logmsg l m st) = logged st @ [(l, m)]"
  by (simp add: logmsg_def)

lemma prefix_logmsg: "prefix xs (logged st) \<Longrightarrow> prefix xs (logged (logmsg l m st))"
  by (simp add: logged_logmsg prefix_def) auto

lemma validate_app_structure_log:
  "prefix (logged st) (logged (snd (validate_app_structure src app st)))"
  by (auto simp: validate_app_structure_def Let_def split: option.splits intro!: prefix_logmsg)

lemma backup_existing_app_log:
  "prefix (logged st) (logged (snd (backup_existing_app app dir ev st)))"
  by (auto simp: backup_existing_app_def Let_def split: option.splits tar_fault.splits intro!: prefix_logmsg)

lemma update_app_version_log:
  "prefix (logged st) (logged (snd (update_app_version src app version ev st)))"
  by (auto simp: update_app_version_def Let_def split: option.splits sum.splits prod.splits intro!: prefix_logmsg)

lemma replace_app_log:
  "prefix (logged st) (logged (snd (replace_app src app target ev st)))"
  by (auto simp: replace_app_def Let_def split: sum.splits intro!: prefix_logmsg)

lemma validate_deployment_log:
  "prefix (logged st) (logged (snd (validate_deployment app target st)))"
  by (auto simp: validate_deployment_def Let_def split: option.splits intro!: prefix_logmsg)

lemma deploy_app_log:
  "prefix (logged st @ [(LOG, ''Deploying '' @ app @ '' app (v'' @ version @ '')...'')])
     (logged (snd (deploy_app src app target version ev st)))"
proof -
  let ?st0 = "logmsg LOG (''Deploying '' @ app @ '' app (v'' @ version @ '')...'') st"
  have 0: "logged ?st0 = logged st @ [(LOG, ''Deploying '' @ app @ '' app (v'' @ version @ '')...'')]"
    by (rule logged_logmsg)
  show ?thesis
  proof (cases rule: deploy_app_cases[of src app version st target ev])
    case (invalid st1)
    have "prefix (logged ?st0) (logged st1)"
      using validate_app_structure_log[of ?st0 src app] invalid(1) by simp
    then show ?thesis unfolding invalid(2) 0 by (simp add: prefix_logmsg)
  next
    case (no_backup st1 st2)
    have "prefix (logged ?st0) (logged st1)"
      using validate_app_structure_log[of ?st0 src app] no_backup(1) by simp
    moreover have "prefix (logged st1) (logged st2)"
      using backup_existing_app_log[of st1 app "butlast target" ev] no_backup(2) by simp
    ultimately have "prefix (logged ?st0) (logged st2)" by (rule prefix_order.trans)
    then show ?thesis unfolding no_backup(3) 0 by (simp add: prefix_logmsg)
  next
    case (no_update st1 st2 st3)
    have "prefix (logged ?st0) (logged st1)"
      using validate_app_structure_log[of ?st0 src app] no_update(1) by simp
    moreover have "prefix (logged st1) (logged st2)"
      using backup_existing_app_log[of st1 app "butlast target" ev] no_update(2) by simp
    moreover have "prefix (logged st2) (logged st3)"
      using update_app_version_log[of st2 src app version ev] no_update(3) by simp
    ultimately have "prefix (logged ?st0) (logged st3)" by (meson prefix_order.trans)
    then show ?thesis unfolding no_update(4) 0 by (simp add: prefix_logmsg)
  next
    case (replace st1 st2 st3)
    have "prefix (logged ?st0) (logged st1)"
      using validate_app_structure_log[of ?st0 src app] replace(1) by simp
    moreover have "prefix (logged st1) (logged st2)"
      using backup_existing_app_log[of st1 app "butlast target" ev] replace(2) by simp
    moreover have "prefix (logged st2) (logged st3)"
      using update_app_version_log[of st2 src app version ev] replace(3) by simp
    moreover have "prefix (logged st3) (logged (snd (replace_app src app target ev st3)))"
      by (rule replace_app_log)
    ultimately have "prefix (logged ?st0) (logged (snd (replace_app src app target ev st3)))"
      by (meson prefix_order.trans)
    then show ?thesis unfolding replace(4) 0 by simp
  qed
qed

lemma deploy_one_log:
  "\<exists>v. prefix (logged (world se) @ snd (prompt_for_version app (get_current_version src app (fs (world se))) inp)
             @ [(LOG, ''Deploying '' @ app @ '' app (v'' @ v @ '')...'')])
        (logged (world (deploy_one src dir (app, inp, ev) se)))"
proof -
  let ?cur = "get_current_version src app (fs (world se))"
  obtain v w where p: "prompt_for_version app ?cur inp = (v, w)" by (cases "prompt_for_version app ?cur inp")
  let ?st = "(world se)\<lparr>logged := logged (world se) @ w\<rparr>"
  obtain b st1 where d: "deploy_app src app (dir @ [app]) v ev ?st = (b, st1)"
    by (cases "deploy_app src app (dir @ [app]) v ev ?st")
  have 1: "prefix (logged (world se) @ w @ [(LOG, ''Deploying '' @ app @ '' app (v'' @ v @ '')...'')]) (logged st1)"
    using deploy_app_log[of ?st app v src "dir @ [app]" ev] d by simp
  obtain b2 st2 where vd: "validate_deployment app (dir @ [app]) st1 = (b2, st2)"
    by (cases "validate_deployment app (dir @ [app]) st1")
  have 2: "prefix (logged st1) (logged st2)"
    using validate_deployment_log[of st1 app "dir @ [app]"] vd by simp
  have "prefix (logged (world se) @ w @ [(LOG, ''Deploying '' @ app @ '' app (v'' @ v @ '')...'')])
        (logged (world (deploy_one src dir (app, inp, ev) se)))"
  proof (cases b)
    case False
    then show ?thesis using p d 1 by (simp add: deploy_one_def Let_def prefix_logmsg)
  next
    case True
    have 3: "prefix (logged (world se) @ w @ [(LOG, ''Deploying '' @ app @ '' app (v'' @ v @ '')...'')]) (logged st2)"
      using 1 2 by (rule prefix_order.trans)
    show ?thesis using True p d vd 3 by (cases b2) (simp_all add: deploy_one_def Let_def prefix_logmsg)
  qed
  then show ?thesis using p by auto
qed

lemma deploy_one_extends: "prefix (logged (world se)) (logged (world (deploy_one src dir sel se)))"
proof -
  obtain app inp ev where s: "sel = (app, inp, ev)" by (cases sel)
  obtain v where "prefix (logged (world se) @ snd (prompt_for_version app (get_current_version src app (fs (world se))) inp)
             @ [(LOG, ''Deploying '' @ app @ '' app (v'' @ v @ '')...'')])
        (logged (world (deploy_one src dir (app, inp, ev) se)))"
    using deploy_one_log by blast
  then show ?thesis unfolding s by (meson append_prefixD)
qed

lemma deploy_selected_extends:
  "prefix (logged (world se)) (logged (world (deploy_selected src dir sels se)))"
proof (induction sels arbitrary: se)
  case Nil
  show ?case by simp
next
  case (Cons sel sels)
  have "prefix (logged (world se)) (logged (world (deploy_one src dir sel se)))"
    by (rule deploy_one_extends)
  then show ?case using Cons[of "deploy_one src dir sel se"] by (auto intro: prefix_order.trans)
qed

lemma deploy_selected_attempts_all:
  "(app, inp, ev) \<in> set sels \<Longrightarrow>
   \<exists>v. (LOG, ''Deploying '' @ app @ '' app (v'' @ v @ '')...'')
          \<in> set (logged (world (deploy_selected src dir sels se)))"
proof (induction sels arbitrary: se)
  case Nil
  then show ?case by simp
next
  case (Cons sel sels)
  show ?case
  proof (cases "sel = (app, inp, ev)")
    case True
    obtain v where "prefix (logged (world se) @ snd (prompt_for_version app (get_current_version src app (fs (world se))) inp)
             @ [(LOG, ''Deploying '' @ app @ '' app (v'' @ v @ '')...'')])
        (logged (world (deploy_one src dir (app, inp, ev) se)))"
      using deploy_one_log by blast
    then have "(LOG, ''Deploying '' @ app @ '' app (v'' @ v @ '')...'')
        \<in> set (logged (world (deploy_one src dir (app, inp, ev) se)))"
      by (auto simp: prefix_def)
    moreover have "prefix (logged (world (deploy_one src dir (app, inp, ev) se)))
        (logged (world (deploy_selected src dir sels (deploy_one src dir (app, inp, ev) se))))"
      by (rule deploy_selected_extends)
    ultimately have "(LOG, ''Deploying '' @ app @ '' app (v'' @ v @ '')...'')
        \<in> set (logged (world (deploy_selected src dir sels (deploy_one src dir (app, inp, ev) se))))"
      using set_mono_prefix by blast
    then show ?thesis using True by auto
  next
    case False
    then have "(app, inp, ev) \<in> set sels" using Cons.prems by simp
    then show ?thesis using Cons.IH[of "deploy_one src dir sel se"] by simp
  qed
qed

text \<open>
  Claim C2, as amended. In every session that reaches the deployment loop (the apps
  directory could be created, at least one app is selected, the operator confirmed), the
  pipeline of every selected app is started, whatever happened to the apps before it: the
  log holds the opening line of \<open>deploy_app\<close> for each of them. The exit status does
  not depend on the outcome of any pipeline: it is 0 when the steps after the loop
  return, and 1 when one of them raises.
\<close>

theorem unit_failures_leave_exit_status:
  assumes "mkdir_parents (fs st) dir = Inr t" and "selected \<noteq> []"
    and "map lower_char (py_strip proceed) \<in> {''y'', ''yes''}"
  shows "fst (main src dir selected proceed collaborators_raise st) = (if collaborators_raise then 1 else 0) \<and>
     (\<forall>(app, inp, ev) \<in> set selected.
        \<exists>v. (LOG, ''Deploying '' @ app @ '' app (v'' @ v @ '')...'')
               \<in> set (logged (world (snd (main src dir selected proceed collaborators_raise st)))))"
proof -
  let ?start = "\<lparr>deployed_apps = [], app_versions = [], world = st\<lparr>fs := t\<rparr>\<rparr>"
  let ?se = "deploy_selected src dir selected ?start"
  have m: "main src dir selected proceed collaborators_raise st =
      (if collaborators_raise then (1, ?se)
       else (0, ?se\<lparr>world := logmsg SUCCESS ''Deployment completed successfully!'' (world ?se)\<rparr>))"
    using assms by (simp add: main_def run_def Let_def exit_status_def)
  have a: "\<exists>v. (LOG, ''Deploying '' @ app @ '' app (v'' @ v @ '')...'') \<in> set (logged (world ?se))"
    if "(app, inp, ev) \<in> set selected" for app inp ev
    using that by (rule deploy_selected_attempts_all)
  show ?thesis
  proof (cases collaborators_raise)
    case True
    then show ?thesis using m a by auto
  next
    case False
    then show ?thesis using m a by (auto simp: logged_logmsg)
  qed
qed

theorem unit_failures_leave_exit_status_witness:
  "fst (main [''src''] [''opt''] sample_selection ''y'' False sample_state) = 0 \<and>
   (\<exists>v. (LOG, ''Deploying appA app (v'' @ v @ '')...'')
      \<in> set (logged (world (snd (main [''src''] [''opt''] sample_selection ''y'' False sample_state)))))"
proof -
  have 1: "mkdir_parents (fs sample_state) [''opt''] = Inr sample_tree" by code_simp
  have 2: "sample_selection \<noteq> []" by (simp add: sample_selection_def)
  have 3: "map lower_char (py_strip ''y'') \<in> {''y'', ''yes''}" by code_simp
  have 4: "(''appA'', ''2.0.0'', sample_env) \<in> set sample_selection" by (simp add: sample_selection_def)
  show ?thesis
    using unit_failures_leave_exit_status [OF 1 2 3, of "[''src'']" False] 4 by fastforce
qed

text \<open>
  In the sample session \<open>appB\<close> fails its validation, \<open>appA\<close> is deployed after it,
  and the process ends with exit status 0.
\<close>

theorem failed_unit_exit_status_zero:
  "(ERROR, ''appB deployment failed'')
     \<in> set (logged (world (snd (main [''src''] [''opt''] sample_selection ''y'' False sample_state)))) \<and>
   deployed_apps (snd (main [''src''] [''opt''] sample_selection ''y'' False sample_state)) = [''appA''] \<and>
   fst (main [''src''] [''opt''] sample_selection ''y'' False sample_state) = 0"
  by code_simp



section \<open>Reading back what was written\<close>

lemma lower_char_idem: "lower_char (lower_char c) = lower_char c"
proof -
  let ?n = "of_char c :: nat"
  have lt: "?n < 256" by simp
  show ?thesis
  proof (cases "(65 \<le> ?n \<and> ?n \<le> 90) \<or> (192 \<le> ?n \<and> ?n \<le> 222 \<and> ?n \<noteq> 215)")
    case True
    then have l: "lower_char c = char_of (?n + 32)" by (simp add: lower_char_def Let_def)
    have "of_char (char_of (?n + 32) :: char) = (?n + 32) mod 256" by simp
    also have "\<dots> = ?n + 32" using True by auto
    finally have "(of_char (lower_char c) :: nat) = ?n + 32" using l by simp
    then have "lower_char (lower_char c) = lower_char c"
      using True by (subst lower_char_def) (auto simp: Let_def)
    then show ?thesis .
  next
    case False
    then have "lower_char c = c" unfolding lower_char_def Let_def by (simp only: if_False)
    then show ?thesis by simp
  qed
qed

lemma optionxform_idem: "optionxform (optionxform k) = optionxform k"
  by (simp add: optionxform_def lower_char_idem)

lemma optionxform_Nil: "optionxform k = [] \<longleftrightarrow> k = []"
  by (simp add: optionxform_def)

lemma update_append: "k \<notin> fst ` set xs \<Longrightarrow> AList.update k v xs = xs @ [(k, v)]"
  by (induction xs) auto

lemma map_entry_last:
  "n \<notin> fst ` set front \<Longrightarrow> AList.map_entry n f (front @ [(n, x)]) = front @ [(n, f x)]"
  by (induction front) auto

lemma read_lines_append:
  "read_lines (xs @ ys) r = (case read_lines xs r of Inl e \<Rightarrow> Inl e | Inr r' \<Rightarrow> read_lines ys r')"
  by (induction xs arbitrary: r) (auto split: sum.splits)

lemma read_items:
  assumes "cursect r = Some n" and "distinct (map fst items)"
    and "\<forall>k\<in>fst ` set items. k \<noteq> [] \<and> optionxform k = k \<and> (n, k) \<notin> set (added_options r)"
  shows "read_lines (map (\<lambda>(k, v). Item k v) items) r =
     Inr (r\<lparr>conf := fold (\<lambda>(k, v) c. store c n k v) items (conf r),
            added_options := rev (map (\<lambda>(k, v). (n, k)) items) @ added_options r\<rparr>)"
  using assms
proof (induction items arbitrary: r)
  case Nil
  show ?case by simp
next
  case (Cons kv items)
  obtain k v where kv: "kv = (k, v)" by (cases kv)
  let ?r1 = "r\<lparr>conf := store (conf r) n k v, added_options := (n, k) # added_options r\<rparr>"
  have k: "k \<noteq> []" "optionxform k = k" "(n, k) \<notin> set (added_options r)"
    using Cons.prems(3) kv by auto
  have 1: "read_line (Item k v) r = Inr ?r1"
    using Cons.prems(1) k by simp
  have "read_lines (map (\<lambda>(k, v). Item k v) items) ?r1 =
     Inr (?r1\<lparr>conf := fold (\<lambda>(k, v) c. store c n k v) items (conf ?r1),
            added_options := rev (map (\<lambda>(k, v). (n, k)) items) @ added_options ?r1\<rparr>)"
  proof (rule Cons.IH)
    show "cursect ?r1 = Some n" using Cons.prems(1) by simp
    show "distinct (map fst items)" using Cons.prems(2) by simp
    show "\<forall>k\<in>fst ` set items. k \<noteq> [] \<and> optionxform k = k \<and> (n, k) \<notin> set (added_options ?r1)"
      using Cons.prems(2,3) kv by auto
  qed
  then show ?case using 1 kv by simp
qed

lemma fold_store_section:
  assumes "n \<noteq> default_section" and "sections c = front @ [(n, cur)]" and "n \<notin> fst ` set front"
    and "distinct (map fst items)" and "fst ` set items \<inter> fst ` set cur = {}"
  shows "fold (\<lambda>(k, v) c. store c n k v) items c = c\<lparr>sections := front @ [(n, cur @ items)]\<rparr>"
  using assms(2,4,5)
proof (induction items arbitrary: c cur)
  case Nil
  then show ?case by simp
next
  case (Cons kv items)
  obtain k v where kv: "kv = (k, v)" by (cases kv)
  have "k \<notin> fst ` set cur" using Cons.prems(3) kv by auto
  then have s: "store c n k v = c\<lparr>sections := front @ [(n, cur @ [(k, v)])]\<rparr>"
    using assms(1,3) Cons.prems(1) by (simp add: store_def map_entry_last update_append)
  have "fold (\<lambda>(k, v) c. store c n k v) items (store c n k v) =
      (store c n k v)\<lparr>sections := front @ [(n, (cur @ [(k, v)]) @ items)]\<rparr>"
  proof (rule Cons.IH)
    show "sections (store c n k v) = front @ [(n, cur @ [(k, v)])]" using s by simp
    show "distinct (map fst items)" using Cons.prems(2) by simp
    show "fst ` set items \<inter> fst ` set (cur @ [(k, v)]) = {}"
      using Cons.prems(2,3) kv by auto
  qed
  then show ?case using kv s by simp
qed

lemma fold_store_default:
  assumes "defaults c = cur" and "distinct (map fst items)" and "fst ` set items \<inter> fst ` set cur = {}"
  shows "fold (\<lambda>(k, v) c. store c default_section k v) items c = c\<lparr>defaults := cur @ items\<rparr>"
  using assms
proof (induction items arbitrary: c cur)
  case Nil
  then show ?case by simp
next
  case (Cons kv items)
  obtain k v where kv: "kv = (k, v)" by (cases kv)
  have "k \<notin> fst ` set cur" using Cons.prems(3) kv by auto
  then have s: "store c default_section k v = c\<lparr>defaults := cur @ [(k, v)]\<rparr>"
    using Cons.prems(1) by (simp add: store_def update_append)
  have "fold (\<lambda>(k, v) c. store c default_section k v) items (store c default_section k v) =
      (store c default_section k v)\<lparr>defaults := (cur @ [(k, v)]) @ items\<rparr>"
  proof (rule Cons.IH)
    show "defaults (store c default_section k v) = cur @ [(k, v)]" using s by simp
    show "distinct (map fst items)" using Cons.prems(2) by simp
    show "fst ` set items \<inter> fst ` set (cur @ [(k, v)]) = {}"
      using Cons.prems(2,3) kv by auto
  qed
  then show ?case using kv s by simp
qed

lemma read_write_section:
  assumes n: "n \<noteq> default_section" "n \<notin> fst ` set (sections (conf r))"
    and w: "wf_items items" and a: "\<forall>k. (n, k) \<notin> set (added_options r)"
  shows "read_lines (write_section n items) r =
     Inr (r\<lparr>conf := (conf r)\<lparr>sections := sections (conf r) @ [(n, items)]\<rparr>,
            cursect := Some n, added_sections := n # added_sections r,
            added_options := rev (map (\<lambda>(k, v). (n, k)) items) @ added_options r\<rparr>)"
proof -
  let ?r1 = "r\<lparr>conf := (conf r)\<lparr>sections := sections (conf r) @ [(n, [])]\<rparr>,
                cursect := Some n, added_sections := n # added_sections r\<rparr>"
  have 1: "read_line (Header n) r = Inr ?r1" using n by simp
  have 2: "read_lines (map (\<lambda>(k, v). Item k v) items) ?r1 =
     Inr (?r1\<lparr>conf := fold (\<lambda>(k, v) c. store c n k v) items (conf ?r1),
            added_options := rev (map (\<lambda>(k, v). (n, k)) items) @ added_options ?r1\<rparr>)"
    using w a by (intro read_items) (auto simp: wf_items_def)
  have 3: "fold (\<lambda>(k, v) c. store c n k v) items (conf ?r1) =
      (conf ?r1)\<lparr>sections := sections (conf r) @ [(n, [] @ items)]\<rparr>"
    using n w by (intro fold_store_section) (auto simp: wf_items_def)
  show ?thesis
    unfolding write_section_def using 1 2 3 by (simp add: read_lines_append)
qed

lemma read_write_default:
  assumes w: "wf_items items" and d: "default_section \<notin> fst ` set (sections (conf r))"
    and e: "defaults (conf r) = []" and a: "\<forall>k. (default_section, k) \<notin> set (added_options r)"
  shows "read_lines (write_section default_section items) r =
     Inr (r\<lparr>conf := (conf r)\<lparr>defaults := items\<rparr>, cursect := Some default_section,
            added_options := rev (map (\<lambda>(k, v). (default_section, k)) items) @ added_options r\<rparr>)"
proof -
  let ?r1 = "r\<lparr>cursect := Some default_section\<rparr>"
  have 1: "read_line (Header default_section) r = Inr ?r1" using d by simp
  have 2: "read_lines (map (\<lambda>(k, v). Item k v) items) ?r1 =
     Inr (?r1\<lparr>conf := fold (\<lambda>(k, v) c. store c default_section k v) items (conf ?r1),
            added_options := rev (map (\<lambda>(k, v). (default_section, k)) items) @ added_options ?r1\<rparr>)"
    using w a by (intro read_items) (auto simp: wf_items_def)
  have 3: "fold (\<lambda>(k, v) c. store c default_section k v) items (conf ?r1) =
      (conf ?r1)\<lparr>defaults := [] @ items\<rparr>"
    using w e by (intro fold_store_default) (auto simp: wf_items_def)
  show ?thesis
    unfolding write_section_def using 1 2 3 by (simp add: read_lines_append)
qed

lemma read_write_sections:
  assumes "distinct (map fst secs)" and "fst ` set secs \<inter> fst ` set (sections (conf r)) = {}"
    and "default_section \<notin> fst ` set secs" and "\<forall>e\<in>set secs. wf_items (snd e)"
    and "\<forall>(s, k)\<in>set (added_options r). s \<in> fst ` set (sections (conf r)) \<or> s = default_section"
  shows "\<exists>r'. read_lines (concat (map (\<lambda>(n, items). write_section n items) secs)) r = Inr r' \<and>
     conf r' = (conf r)\<lparr>sections := sections (conf r) @ secs\<rparr> \<and> bad r' = bad r"
  using assms
proof (induction secs arbitrary: r)
  case Nil
  show ?case by simp
next
  case (Cons sec secs)
  obtain n items where sec: "sec = (n, items)" by (cases sec)
  let ?r1 = "r\<lparr>conf := (conf r)\<lparr>sections := sections (conf r) @ [(n, items)]\<rparr>,
            cursect := Some n, added_sections := n # added_sections r,
            added_options := rev (map (\<lambda>(k, v). (n, k)) items) @ added_options r\<rparr>"
  have n: "n \<noteq> default_section" "n \<notin> fst ` set (sections (conf r))"
    using Cons.prems(2,3) sec by auto
  have a: "\<forall>k. (n, k) \<notin> set (added_options r)"
    using Cons.prems(5) n by fastforce
  have 1: "read_lines (write_section n items) r = Inr ?r1"
    using n _ a by (rule read_write_section) (use Cons.prems(4) sec in simp)
  have "\<exists>r'. read_lines (concat (map (\<lambda>(n, items). write_section n items) secs)) ?r1 = Inr r' \<and>
     conf r' = (conf ?r1)\<lparr>sections := sections (conf ?r1) @ secs\<rparr> \<and> bad r' = bad ?r1"
  proof (rule Cons.IH)
    show "distinct (map fst secs)" using Cons.prems(1) by simp
    show "fst ` set secs \<inter> fst ` set (sections (conf ?r1)) = {}"
      using Cons.prems(1,2) sec by auto
    show "default_section \<notin> fst ` set secs" using Cons.prems(3) by simp
    show "\<forall>e\<in>set secs. wf_items (snd e)" using Cons.prems(4) by simp
    show "\<forall>(s, k)\<in>set (added_options ?r1). s \<in> fst ` set (sections (conf ?r1)) \<or> s = default_section"
      using Cons.prems(5) by auto
  qed
  then show ?case using 1 sec by (auto simp: read_lines_append)
qed

lemma read_config_write:
  assumes "wf_config c"
  shows "read_config (config_write c) = Inr c"
proof -
  let ?d = "if defaults c \<noteq> [] then write_section default_section (defaults c) else []"
  have "\<exists>r1. read_lines ?d new_reader = Inr r1 \<and> conf r1 = \<lparr>defaults = defaults c, sections = []\<rparr> \<and>
      bad r1 = False \<and> (\<forall>(s, k)\<in>set (added_options r1). s = default_section)"
  proof (cases "defaults c = []")
    case True
    then show ?thesis by (simp add: new_reader_def empty_config_def)
  next
    case False
    have "read_lines (write_section default_section (defaults c)) new_reader =
     Inr (new_reader\<lparr>conf := (conf new_reader)\<lparr>defaults := defaults c\<rparr>, cursect := Some default_section,
            added_options := rev (map (\<lambda>(k, v). (default_section, k)) (defaults c)) @ added_options new_reader\<rparr>)"
      using assms by (intro read_write_default) (simp_all add: wf_config_def new_reader_def empty_config_def)
    then show ?thesis using False by (auto simp: new_reader_def empty_config_def)
  qed
  then obtain r1 where r1: "read_lines ?d new_reader = Inr r1"
    "conf r1 = \<lparr>defaults = defaults c, sections = []\<rparr>" "bad r1 = False"
    "\<forall>(s, k)\<in>set (added_options r1). s = default_section" by blast
  have "\<exists>r'. read_lines (concat (map (\<lambda>(n, items). write_section n items) (sections c))) r1 = Inr r' \<and>
     conf r' = (conf r1)\<lparr>sections := sections (conf r1) @ sections c\<rparr> \<and> bad r' = bad r1"
    using assms r1(2,4) by (intro read_write_sections) (auto simp: wf_config_def)
  then obtain r' where r': "read_lines (concat (map (\<lambda>(n, items). write_section n items) (sections c))) r1 = Inr r'"
    "conf r' = (conf r1)\<lparr>sections := sections (conf r1) @ sections c\<rparr>" "bad r' = bad r1" by blast
  have "read_lines (config_write c) new_reader = Inr r'"
    unfolding config_write_def using r1(1) r'(1) by (simp add: read_lines_append)
  moreover have "conf r' = c" using r'(2) r1(2) by simp
  ultimately show ?thesis using r'(3) r1(3) by (simp add: read_config_def)
qed

lemma wf_items_keys_ok: "wf_items items = keys_ok False items"
  by (auto simp: wf_items_def keys_ok_def)

lemma keys_ok_mono: "keys_ok b items \<Longrightarrow> (b \<longrightarrow> b') \<Longrightarrow> keys_ok b' items"
  by (auto simp: keys_ok_def)

lemma keys_ok_update:
  "keys_ok b items \<Longrightarrow> optionxform k = k \<Longrightarrow> (\<not> b \<longrightarrow> k \<noteq> []) \<Longrightarrow> keys_ok b (AList.update k v items)"
  by (auto simp: keys_ok_def distinct_update dom_update)

lemma map_entry_keys: "map fst (AList.map_entry n f xs) = map fst xs"
  by (induction xs) auto

lemma map_entry_set:
  "e \<in> set (AList.map_entry n f xs) \<Longrightarrow> e \<in> set xs \<or> (\<exists>x. (n, x) \<in> set xs \<and> e = (n, f x))"
  by (induction xs) (auto split: if_splits)

lemma store_ok:
  assumes "keys_ok b (defaults c)" and "\<forall>e\<in>set (sections c). keys_ok b (snd e)"
    and "optionxform k = k" and "\<not> b \<longrightarrow> k \<noteq> []"
  shows "keys_ok b (defaults (store c n k v)) \<and> (\<forall>e\<in>set (sections (store c n k v)). keys_ok b (snd e)) \<and>
     map fst (sections (store c n k v)) = map fst (sections c)"
proof (cases "n = default_section")
  case True
  then show ?thesis using assms by (simp add: store_def keys_ok_update)
next
  case False
  have "keys_ok b (snd e)" if "e \<in> set (AList.map_entry n (AList.update k v) (sections c))" for e
    using map_entry_set[OF that] assms by (auto simp: keys_ok_update)
  then show ?thesis using False assms(1) by (simp add: store_def map_entry_keys)
qed

lemma read_line_ok:
  assumes "reader_ok r" and "read_line l r = Inr r'"
  shows "reader_ok r'"
proof (cases l)
  case (Header n)
  have k: "keys_ok (bad r) []" by (simp add: keys_ok_def)
  have "bad r' = bad r \<and> defaults (conf r') = defaults (conf r) \<and>
      (sections (conf r') = sections (conf r) \<or>
       (sections (conf r') = sections (conf r) @ [(n, [])] \<and>
        n \<notin> fst ` set (sections (conf r)) \<and> n \<noteq> default_section))"
    using assms(2) Header by (auto split: if_splits)
  then show ?thesis using assms(1) k unfolding reader_ok_def by auto
next
  case (Item k v)
  then obtain n where n: "cursect r = Some n" using assms(2) by (auto split: option.splits)
  let ?b = "bad r \<or> k = []"
  have r': "r' = r\<lparr>conf := store (conf r) n (optionxform k) v,
                 added_options := (n, optionxform k) # added_options r, bad := ?b\<rparr>"
    using assms(2) Item n by (auto split: if_splits)
  have 1: "keys_ok ?b (defaults (conf r))" "\<forall>e\<in>set (sections (conf r)). keys_ok ?b (snd e)"
    using assms(1) by (auto simp: reader_ok_def intro: keys_ok_mono)
  have "keys_ok ?b (defaults (store (conf r) n (optionxform k) v)) \<and>
     (\<forall>e\<in>set (sections (store (conf r) n (optionxform k) v)). keys_ok ?b (snd e)) \<and>
     map fst (sections (store (conf r) n (optionxform k) v)) = map fst (sections (conf r))"
    using 1 by (rule store_ok) (simp_all add: optionxform_idem optionxform_Nil)
  then show ?thesis using assms(1) unfolding r' reader_ok_def
    by simp (metis list.set_map)
next
  case (Skipped t)
  then show ?thesis using assms by simp
next
  case (Bad t)
  then obtain n where "cursect r = Some n" using assms(2) by (auto split: option.splits)
  then have "r' = r\<lparr>bad := True\<rparr>" using assms(2) Bad by simp
  then show ?thesis using assms(1) by (auto simp: reader_ok_def intro: keys_ok_mono)
qed

lemma read_lines_ok: "reader_ok r \<Longrightarrow> read_lines ls r = Inr r' \<Longrightarrow> reader_ok r'"
proof (induction ls arbitrary: r)
  case Nil
  then show ?case by simp
next
  case (Cons l ls)
  then obtain r1 where 1: "read_line l r = Inr r1" "read_lines ls r1 = Inr r'"
    by (auto split: sum.splits)
  then show ?case using Cons.IH[of r1] read_line_ok[OF Cons.prems(1) 1(1)] by simp
qed

lemma read_config_wf: "read_config ls = Inr c \<Longrightarrow> wf_config c"
proof -
  assume h: "read_config ls = Inr c"
  then obtain r where r: "read_lines ls new_reader = Inr r" "\<not> bad r" "conf r = c"
    by (auto simp: read_config_def split: sum.splits if_splits)
  have "reader_ok new_reader" by (simp add: reader_ok_def new_reader_def empty_config_def keys_ok_def)
  then have "reader_ok r" using r(1) by (rule read_lines_ok)
  then show ?thesis using r(2,3) by (auto simp: reader_ok_def wf_config_def wf_items_keys_ok)
qed

lemma add_section_wf: "add_section c s = Inr c' \<Longrightarrow> wf_config c \<Longrightarrow> wf_config c'"
  by (auto simp: add_section_def wf_config_def wf_items_def split: if_splits)

lemma config_set_wf:
  assumes "config_set c s opt v = Inr c'" and "wf_config c" and "opt \<noteq> []"
  shows "wf_config c'"
proof -
  obtain n where c': "c' = store c n (optionxform opt) v"
    using assms(1) by (auto simp: config_set_def split: if_splits)
  have "keys_ok False (defaults (store c n (optionxform opt) v)) \<and>
     (\<forall>e\<in>set (sections (store c n (optionxform opt) v)). keys_ok False (snd e)) \<and>
     map fst (sections (store c n (optionxform opt) v)) = map fst (sections c)"
    using assms(2,3) by (intro store_ok) (auto simp: wf_config_def wf_items_keys_ok optionxform_idem optionxform_Nil)
  then show ?thesis using assms(2) unfolding c' wf_config_def wf_items_keys_ok
    by simp (metis list.set_map)
qed

lemma updated_config_wf:
  assumes "updated_config c version build = Inr c'" and "wf_config c"
  shows "wf_config c'"
proof -
  obtain c1 c2 c3 c4 where s: "ensure_section c ''launcher'' = Inr c1"
    "config_set c1 ''launcher'' ''version'' version = Inr c2"
    "ensure_section c2 ''install'' = Inr c3"
    "config_set c3 ''install'' ''build'' build = Inr c4"
    "update_label c4 version = Inr c'"
    using assms(1) unfolding updated_config_def then_do_Inr by blast
  have 1: "wf_config c1" using s(1) assms(2) by (auto simp: ensure_section_def add_section_wf split: if_splits)
  have 2: "wf_config c2" using s(2) 1 by (rule config_set_wf) simp
  have 3: "wf_config c3" using s(3) 2 by (auto simp: ensure_section_def add_section_wf split: if_splits)
  have 4: "wf_config c4" using s(4) 3 by (rule config_set_wf) simp
  show ?thesis
  proof (cases "has_option c4 ''launcher'' ''label''")
    case True
    then obtain l where "config_set c4 ''launcher'' ''label'' (rewrite_label version l) = Inr c'"
      using s(5) by (auto simp: update_label_def then_do_Inr)
    then show ?thesis using 4 by (rule config_set_wf) simp
  next
    case False
    then show ?thesis using s(5) 4 by (simp add: update_label_def)
  qed
qed



section \<open>What a version update changes\<close>

lemma map_entry_filter:
  "(\<And>e. P e \<Longrightarrow> fst e \<noteq> n) \<Longrightarrow> filter P (AList.map_entry n f xs) = filter P xs"
proof (induction xs)
  case Nil
  show ?case by simp
next
  case (Cons x xs)
  have "\<not> P (n, y)" for y using Cons.prems by fastforce
  then show ?case using Cons by (cases x) auto
qed

lemma store_section_value:
  assumes "s \<noteq> default_section"
  shows "section_value (store c s k v) s' k' =
     (if s' = s \<and> k' = k \<and> has_section c s then Some v else section_value c s' k')"
  using assms
  by (auto simp: section_value_def store_def map_of_map_entry update_conv' has_section_iff
      split: option.splits)

lemma store_frame:
  assumes "s \<noteq> default_section"
  shows "defaults (store c s k v) = defaults c"
    and "has_section (store c s k v) s' = has_section c s'"
    and "s = ''launcher'' \<or> s = ''install'' \<Longrightarrow> other_sections (store c s k v) = other_sections c"
proof -
  show "defaults (store c s k v) = defaults c" using assms by (simp add: store_def)
  show "has_section (store c s k v) s' = has_section c s'"
    using assms by (simp add: store_def has_section_def map_entry_keys flip: set_map list.map_comp)
  show "other_sections (store c s k v) = other_sections c" if "s = ''launcher'' \<or> s = ''install''"
    using assms that unfolding other_sections_def store_def
    by (auto intro!: map_entry_filter)
qed

lemma config_set_store:
  assumes "config_set c s opt v = Inr c'" and "s \<noteq> []" and "s \<noteq> default_section"
  shows "has_section c s \<and> c' = store c s (optionxform opt) v"
  using assms by (auto simp: config_set_def has_section_def split: if_splits)

lemma ensure_section_effect:
  assumes "ensure_section c s = Inr c'"
  shows "defaults c' = defaults c" and "section_value c' s' k = section_value c s' k"
    and "has_section c' s' \<longleftrightarrow> has_section c s' \<or> s' = s"
    and "s = ''launcher'' \<or> s = ''install'' \<Longrightarrow> other_sections c' = other_sections c"
proof -
  consider (same) "has_section c s" "c' = c"
    | (added) "\<not> has_section c s" "c' = c\<lparr>sections := sections c @ [(s, [])]\<rparr>"
    using assms by (auto simp: ensure_section_def add_section_def split: if_splits)
  then have "defaults c' = defaults c \<and> section_value c' s' k = section_value c s' k \<and>
      (has_section c' s' \<longleftrightarrow> has_section c s' \<or> s' = s) \<and>
      (s = ''launcher'' \<or> s = ''install'' \<longrightarrow> other_sections c' = other_sections c)"
  proof cases
    case same
    then show ?thesis by auto
  next
    case added
    have "map_of (sections c) s = None" using added(1) by (simp add: has_section_iff)
    then have "section_value c' s' k = section_value c s' k"
      unfolding added(2) section_value_def by (auto simp: map_add_def split: option.splits)
    then show ?thesis using added by (auto simp: has_section_def other_sections_def)
  qed
  then show "defaults c' = defaults c" and "section_value c' s' k = section_value c s' k"
    and "has_section c' s' \<longleftrightarrow> has_section c s' \<or> s' = s"
    and "s = ''launcher'' \<or> s = ''install'' \<Longrightarrow> other_sections c' = other_sections c"
    by auto
qed

lemma optionxform_keys:
  "optionxform ''version'' = ''version''" "optionxform ''build'' = ''build''"
  "optionxform ''label'' = ''label''"
  by (simp_all add: optionxform_def lower_char_def)

lemma has_option_section_value:
  assumes "has_section c s" and "s \<noteq> []" and "s \<noteq> default_section"
  shows "has_option c s opt \<longleftrightarrow>
     section_value c s (optionxform opt) \<noteq> None \<or> map_of (defaults c) (optionxform opt) \<noteq> None"
proof -
  obtain items where i: "map_of (sections c) s = Some items"
    using assms(1) by (auto simp: has_section_iff)
  show ?thesis using assms(2,3) i
    unfolding has_option_def section_value_def key_in_iff by auto
qed

lemma config_get_raw_section_value:
  assumes "section_value c s (optionxform opt) = Some v"
  shows "config_get_raw c s opt = Some v"
  using assms
  by (auto simp: config_get_raw_def unify_values_def section_value_def split: option.splits)

lemma updated_config_effect:
  assumes "updated_config c version build = Inr c'"
  shows "defaults c' = defaults c"
    and "other_sections c' = other_sections c"
    and "has_section c' s \<longleftrightarrow> has_section c s \<or> s = ''launcher'' \<or> s = ''install''"
    and "section_value c' ''launcher'' ''version'' = Some version"
    and "section_value c' ''install'' ''build'' = Some build"
    and "(s, k) \<notin> {(''launcher'', ''version''), (''launcher'', ''label''), (''install'', ''build'')} \<Longrightarrow>
         section_value c' s k = section_value c s k"
    and "section_value c ''launcher'' ''label'' = None \<Longrightarrow> map_of (defaults c) ''label'' = None \<Longrightarrow>
         section_value c' ''launcher'' ''label'' = None"
proof -
  obtain c1 c2 c3 c4 where st: "ensure_section c ''launcher'' = Inr c1"
    "config_set c1 ''launcher'' ''version'' version = Inr c2"
    "ensure_section c2 ''install'' = Inr c3"
    "config_set c3 ''install'' ''build'' build = Inr c4"
    "update_label c4 version = Inr c'"
    using assms(1) unfolding updated_config_def then_do_Inr by blast
  note n = launcher_install_names
  have c2: "has_section c1 ''launcher''" "c2 = store c1 ''launcher'' ''version'' version"
    using config_set_store[OF st(2)] n by (simp_all add: optionxform_keys)
  have c4: "has_section c3 ''install''" "c4 = store c3 ''install'' ''build'' build"
    using config_set_store[OF st(4)] n by (simp_all add: optionxform_keys)
  have d4: "defaults c4 = defaults c"
    unfolding c4(2) c2(2) using ensure_section_effect(1)[OF st(1)] ensure_section_effect(1)[OF st(3)]
    by (simp add: store_frame(1) n c2(2))
  have o4: "other_sections c4 = other_sections c"
    using ensure_section_effect(4)[OF st(1)] ensure_section_effect(4)[OF st(3)]
    by (simp add: store_frame(3) n c2(2) c4(2))
  have h4: "has_section c4 s' \<longleftrightarrow> has_section c s' \<or> s' = ''launcher'' \<or> s' = ''install''" for s'
    using ensure_section_effect(3)[OF st(1), of s'] ensure_section_effect(3)[OF st(3), of s']
    by (auto simp: store_frame(2) n c2(2) c4(2))
  have v1: "section_value c1 s' k' = section_value c s' k'" for s' k'
    by (rule ensure_section_effect(2)[OF st(1)])
  have v2: "section_value c2 s' k' =
      (if s' = ''launcher'' \<and> k' = ''version'' then Some version else section_value c s' k')" for s' k'
    unfolding c2(2) using c2(1) by (simp add: store_section_value n v1)
  have v3: "section_value c3 s' k' = section_value c2 s' k'" for s' k'
    by (rule ensure_section_effect(2)[OF st(3)])
  have v4: "section_value c4 s' k' =
      (if s' = ''install'' \<and> k' = ''build'' then Some build
       else if s' = ''launcher'' \<and> k' = ''version'' then Some version
       else section_value c s' k')" for s' k'
    unfolding c4(2) using c4(1) by (simp add: store_section_value n v3 v2)
  consider (kept) "\<not> has_option c4 ''launcher'' ''label''" "c' = c4"
    | (set) l where "has_option c4 ''launcher'' ''label''"
        "c' = store c4 ''launcher'' ''label'' (rewrite_label version l)"
  proof (cases "has_option c4 ''launcher'' ''label''")
    case False
    then have "c' = c4" using st(5) by (simp add: update_label_def)
    then show ?thesis using False by (rule kept[rotated])
  next
    case True
    then obtain l where "config_set c4 ''launcher'' ''label'' (rewrite_label version l) = Inr c'"
      using st(5) by (auto simp: update_label_def then_do_Inr)
    then have "c' = store c4 ''launcher'' ''label'' (rewrite_label version l)"
      using config_set_store[of c4 "''launcher''" "''label''" "rewrite_label version l" c'] n
      by (simp add: optionxform_keys)
    then show ?thesis using True by (rule set[rotated])
  qed
  then have all: "defaults c' = defaults c \<and> other_sections c' = other_sections c \<and>
     (has_section c' s \<longleftrightarrow> has_section c s \<or> s = ''launcher'' \<or> s = ''install'') \<and>
     section_value c' ''launcher'' ''version'' = Some version \<and>
     section_value c' ''install'' ''build'' = Some build \<and>
     ((s, k) \<notin> {(''launcher'', ''version''), (''launcher'', ''label''), (''install'', ''build'')} \<longrightarrow>
         section_value c' s k = section_value c s k) \<and>
     (section_value c ''launcher'' ''label'' = None \<longrightarrow> map_of (defaults c) ''label'' = None \<longrightarrow>
         section_value c' ''launcher'' ''label'' = None)"
  proof cases
    case kept
    have "section_value c4 ''launcher'' ''label'' = section_value c ''launcher'' ''label''"
      by (simp add: v4)
    then show ?thesis unfolding kept(2) using d4 o4 h4 by (auto simp: v4)
  next
    case (set l)
    have hl: "has_section c4 ''launcher''" by (simp add: h4)
    have a: "section_value c ''launcher'' ''label'' = None \<longrightarrow> map_of (defaults c) ''label'' = None \<longrightarrow> False"
      using set(1) has_option_section_value[OF hl, of "''label''"] n d4
      by (auto simp: optionxform_keys v4)
    show ?thesis unfolding set(2) using d4 o4 h4 a
      by (auto simp: store_section_value store_frame n v4)
  qed
  show "defaults c' = defaults c" using all by simp
  show "other_sections c' = other_sections c" using all by simp
  show "has_section c' s \<longleftrightarrow> has_section c s \<or> s = ''launcher'' \<or> s = ''install''" using all by simp
  show "section_value c' ''launcher'' ''version'' = Some version" using all by simp
  show "section_value c' ''install'' ''build'' = Some build" using all by simp
  show "section_value c' s k = section_value c s k"
    if "(s, k) \<notin> {(''launcher'', ''version''), (''launcher'', ''label''), (''install'', ''build'')}"
    using all that by simp
  show "section_value c' ''launcher'' ''label'' = None"
    if "section_value c ''launcher'' ''label'' = None" "map_of (defaults c) ''label'' = None"
    using all that by simp
qed

lemma config_read_wf: "config_read tree p = Inr c \<Longrightarrow> wf_config c"
proof -
  assume h: "config_read tree p = Inr c"
  have e: "wf_config empty_config" by (simp add: wf_config_def wf_items_def empty_config_def)
  show ?thesis
  proof (cases "lookup tree p")
    case None
    then show ?thesis using h e by (simp add: config_read_def)
  next
    case (Some n)
    then show ?thesis using h e by (cases n) (auto simp: config_read_def intro: read_config_wf)
  qed
qed

lemma update_app_version_True:
  assumes "fst (update_app_version src app version ev st)"
  shows "\<exists>c c'. config_read (fs st) (app_conf_path src app) = Inr c \<and>
     updated_config c version (build_num ev) = Inr c' \<and>
     path_exists (fs (snd (update_app_version src app version ev st))) (app_conf_path src app) \<and>
     config_read (fs (snd (update_app_version src app version ev st))) (app_conf_path src app) = Inr c'"
proof (cases rule: update_app_version_cases[of src app version ev st])
  case untouched
  then show ?thesis using assms by simp
next
  case (written c c' t e)
  then have "e = None" using assms by simp
  then have "put (fs st) (app_conf_path src app) (File (config_write c')) = Some t"
    using write_back_cases[OF written(4)] by auto
  then have l: "lookup t (app_conf_path src app) = Some (File (config_write c'))"
    by (rule lookup_put_same)
  have "wf_config c'" using written(3) config_read_wf[OF written(2)] by (rule updated_config_wf)
  then have "read_config (config_write c') = Inr c'" by (rule read_config_write)
  then have "config_read t (app_conf_path src app) = Inr c'" using l by (simp add: config_read_def)
  then show ?thesis using written l by (auto simp: path_exists_def)
qed

lemma strip_chars_id:
  assumes "s \<noteq> []" and "\<not> P (hd s)" and "\<not> P (last s)"
  shows "strip_chars P s = s"
proof -
  have 1: "dropWhile P s = s" using assms(1,2) by (cases s) auto
  have "rev s \<noteq> []" "\<not> P (hd (rev s))" using assms(1,3) by (simp_all add: hd_rev)
  then have "dropWhile P (rev s) = rev s" by (cases "rev s") auto
  then show ?thesis using 1 by (simp add: strip_chars_def)
qed

lemma strict_triple_chars:
  assumes "strict_triple v"
  shows "v \<noteq> []" and "is_digit (hd v)" and "is_digit (last v)" and "\<forall>x\<in>set v. is_digit x \<or> x = CHR ''.''"
proof -
  obtain a b c where h: "a \<noteq> []" "b \<noteq> []" "c \<noteq> []" "list_all is_digit (a @ b @ c)"
    "v = a @ ''.'' @ b @ ''.'' @ c"
    using assms unfolding strict_triple_def by blast
  show "v \<noteq> []" using h by simp
  show "is_digit (hd v)" using h by (cases a) auto
  show "is_digit (last v)" using h by (auto simp: list_all_iff)
  show "\<forall>x\<in>set v. is_digit x \<or> x = CHR ''.''" using h by (auto simp: list_all_iff)
qed

lemma version_in_launcher:
  assumes "has_section c ''launcher''" and "section_value c ''launcher'' ''version'' = Some v"
    and "strict_triple v"
  shows "version_in c [''launcher'', ''install''] = v"
proof -
  note ch = strict_triple_chars[OF assms(3)]
  have nq: "\<not> is_digit (CHR 0x22)" "\<not> is_digit CHR ''%''" by (simp_all add: is_digit_def)
  have raw: "config_get_raw c ''launcher'' ''version'' = Some v"
    using assms(2) by (intro config_get_raw_section_value) (simp add: optionxform_keys)
  have "CHR ''%'' \<notin> set v" using ch(4) nq by auto
  then have g: "config_get c ''launcher'' ''version'' = Inr v" using raw by (intro config_get_plain)
  have o: "has_option c ''launcher'' ''version''"
    using has_option_raw[OF assms(1), of "''version''"] raw by (simp add: launcher_install_names)
  have "strip_quotes v = v" unfolding strip_quotes_def
    using ch nq by (intro strip_chars_id) auto
  then show ?thesis using assms(1) o g by simp
qed

text \<open>
  Claim C8. Whenever \<open>update_app_version\<close> succeeds with a version of the strict
  three-number form, \<open>get_current_version\<close> on the resulting file tree returns
  exactly that version.
\<close>

theorem version_round_trip:
  assumes "strict_triple version" and "fst (update_app_version src app version ev st)"
  shows "get_current_version src app (fs (snd (update_app_version src app version ev st))) = version"
proof -
  let ?t = "fs (snd (update_app_version src app version ev st))"
  obtain c c' where c: "updated_config c version (build_num ev) = Inr c'"
    "path_exists ?t (app_conf_path src app)" "config_read ?t (app_conf_path src app) = Inr c'"
    using update_app_version_True[OF assms(2)] by blast
  have "has_section c' ''launcher''" "section_value c' ''launcher'' ''version'' = Some version"
    using updated_config_effect(3,4)[OF c(1)] by simp_all
  then have "version_in c' [''launcher'', ''install''] = version"
    using assms(1) by (rule version_in_launcher)
  then show ?thesis using c(2,3) by (simp add: get_current_version_def)
qed

theorem version_round_trip_witness:
  "get_current_version [''src''] ''appA''
     (fs (snd (update_app_version [''src''] ''appA'' ''3.1.4'' sample_env sample_state))) = ''3.1.4''"
proof -
  have 1: "strict_triple ''3.1.4''" unfolding strict_triple_iff_match by code_simp
  have 2: "fst (update_app_version [''src''] ''appA'' ''3.1.4'' sample_env sample_state)" by code_simp
  show ?thesis using 1 2 by (rule version_round_trip)
qed

lemma update_app_version_written:
  assumes "fst (update_app_version src app version ev st)"
  shows "\<exists>c c'. config_read (fs st) (app_conf_path src app) = Inr c \<and>
     updated_config c version (build_num ev) = Inr c' \<and> wf_config c' \<and>
     lookup (fs (snd (update_app_version src app version ev st))) (app_conf_path src app)
       = Some (File (config_write c')) \<and>
     config_read (fs (snd (update_app_version src app version ev st))) (app_conf_path src app) = Inr c'"
proof (cases rule: update_app_version_cases[of src app version ev st])
  case untouched
  then show ?thesis using assms by simp
next
  case (written c c' t e)
  then have "e = None" using assms by simp
  then have "put (fs st) (app_conf_path src app) (File (config_write c')) = Some t"
    using write_back_cases[OF written(4)] by auto
  then have l: "lookup t (app_conf_path src app) = Some (File (config_write c'))"
    by (rule lookup_put_same)
  have w: "wf_config c'" using written(3) config_read_wf[OF written(2)] by (rule updated_config_wf)
  then have "read_config (config_write c') = Inr c'" by (rule read_config_write)
  then have r: "config_read t (app_conf_path src app) = Inr c'" using l by (simp add: config_read_def)
  show ?thesis
    by (rule exI[of _ c], rule exI[of _ c']) (intro conjI written(2) written(3) w, simp_all add: written(6) l r)
qed

lemma write_section_lines:
  assumes "l \<in> set (write_section n items)" and "wf_items items"
  shows "(\<forall>t. l = Skipped t \<longrightarrow> t = []) \<and> (\<forall>k v. l = Item k v \<longrightarrow> optionxform k = k) \<and>
         (\<forall>t. l \<noteq> Bad t)"
  using assms by (auto simp: write_section_def wf_items_def)

lemma config_write_lines:
  assumes "wf_config c" and "l \<in> set (config_write c)"
  shows "(\<forall>t. l = Skipped t \<longrightarrow> t = []) \<and> (\<forall>k v. l = Item k v \<longrightarrow> optionxform k = k) \<and>
         (\<forall>t. l \<noteq> Bad t)"
proof -
  from assms(2) consider (d) "l \<in> set (write_section default_section (defaults c))"
    | (s) n items where "(n, items) \<in> set (sections c)" "l \<in> set (write_section n items)"
    by (auto simp: config_write_def split: if_splits)
  then show ?thesis
  proof cases
    case d
    then show ?thesis using assms(1) by (intro write_section_lines) (auto simp: wf_config_def)
  next
    case (s n items)
    have "wf_items items" using assms(1) s(1) by (auto simp: wf_config_def)
    with s(2) show ?thesis by (rule write_section_lines)
  qed
qed

text \<open>
  Claim C9, as amended. When \<open>update_app_version\<close> succeeds, the descriptor it leaves
  reads back as the configuration that was read from the old descriptor, changed in
  \<open>launcher.version\<close>, \<open>install.build\<close> and \<open>launcher.label\<close> only: the defaults
  are the same, the sections other than \<open>launcher\<close> and \<open>install\<close> are the same
  list, in the same order, each with the same keys and values in the same order, no other
  section appears or disappears, every other key of \<open>launcher\<close> and \<open>install\<close>
  keeps its value, and a label that neither \<open>launcher\<close> nor the defaults had is not
  created. The file itself is what the writer makes of that configuration: headers,
  option lines whose keys are in lower case, and one blank line behind each section; it
  has no comment of the old file.
\<close>

theorem update_app_version_frame:
  assumes "fst (update_app_version src app version ev st)"
  shows "\<exists>c c'. config_read (fs st) (app_conf_path src app) = Inr c \<and>
     config_read (fs (snd (update_app_version src app version ev st))) (app_conf_path src app) = Inr c' \<and>
     defaults c' = defaults c \<and> other_sections c' = other_sections c \<and>
     (\<forall>s. s \<noteq> ''launcher'' \<and> s \<noteq> ''install'' \<longrightarrow> has_section c' s = has_section c s) \<and>
     (\<forall>s k. (s, k) \<notin> {(''launcher'', ''version''), (''launcher'', ''label''), (''install'', ''build'')} \<longrightarrow>
        section_value c' s k = section_value c s k) \<and>
     (section_value c ''launcher'' ''label'' = None \<and> map_of (defaults c) ''label'' = None \<longrightarrow>
        section_value c' ''launcher'' ''label'' = None) \<and>
     lookup (fs (snd (update_app_version src app version ev st))) (app_conf_path src app)
       = Some (File (config_write c')) \<and>
     (\<forall>l\<in>set (config_write c').
        (\<forall>t. l = Skipped t \<longrightarrow> t = []) \<and> (\<forall>k v. l = Item k v \<longrightarrow> map lower_char k = k) \<and>
        (\<forall>t. l \<noteq> Bad t))"
proof -
  let ?t = "fs (snd (update_app_version src app version ev st))"
  obtain c c' where c: "config_read (fs st) (app_conf_path src app) = Inr c"
    "updated_config c version (build_num ev) = Inr c'" "wf_config c'"
    "lookup ?t (app_conf_path src app) = Some (File (config_write c'))"
    "config_read ?t (app_conf_path src app) = Inr c'"
    using update_app_version_written[OF assms] by (elim exE conjE)
  have 1: "defaults c' = defaults c" by (rule updated_config_effect(1)[OF c(2)])
  have 2: "other_sections c' = other_sections c" by (rule updated_config_effect(2)[OF c(2)])
  have 3: "\<forall>s. s \<noteq> ''launcher'' \<and> s \<noteq> ''install'' \<longrightarrow> has_section c' s = has_section c s"
  proof (intro allI impI)
    fix s :: string
    assume "s \<noteq> ''launcher'' \<and> s \<noteq> ''install''"
    then show "has_section c' s = has_section c s"
      using updated_config_effect(3)[OF c(2), of s] by simp
  qed
  have 4: "\<forall>s k. (s, k) \<notin> {(''launcher'', ''version''), (''launcher'', ''label''), (''install'', ''build'')} \<longrightarrow>
        section_value c' s k = section_value c s k"
  proof (intro allI impI)
    fix s k :: string
    assume "(s, k) \<notin> {(''launcher'', ''version''), (''launcher'', ''label''), (''install'', ''build'')}"
    then show "section_value c' s k = section_value c s k"
      by (rule updated_config_effect(6)[OF c(2)])
  qed
  have 5: "section_value c ''launcher'' ''label'' = None \<and> map_of (defaults c) ''label'' = None \<longrightarrow>
        section_value c' ''launcher'' ''label'' = None"
    using updated_config_effect(7)[OF c(2)] by simp
  have 6: "\<forall>l\<in>set (config_write c').
        (\<forall>t. l = Skipped t \<longrightarrow> t = []) \<and> (\<forall>k v. l = Item k v \<longrightarrow> map lower_char k = k) \<and>
        (\<forall>t. l \<noteq> Bad t)"
    using config_write_lines[OF c(3)] unfolding optionxform_def by blast
  show ?thesis
    by (rule exI[of _ c], rule exI[of _ c']) (intro conjI c(1) c(5) 1 2 3 4 5 c(4) 6)
qed

theorem update_app_version_frame_witness:
  "\<exists>c'. config_read (fs (snd (update_app_version [''src''] ''appM'' ''2.0.0'' sample_env sample_mixed_state)))
           (app_conf_path [''src''] ''appM'') = Inr c' \<and>
        other_sections c' = [(''ui'', [(''is_visible'', ''true'')])] \<and>
        section_value c' ''launcher'' ''author'' = Some ''ops'' \<and>
        lookup (fs (snd (update_app_version [''src''] ''appM'' ''2.0.0'' sample_env sample_mixed_state)))
           (app_conf_path [''src''] ''appM'') = Some (File (config_write c'))"
proof -
  let ?c = "\<lparr>defaults = [], sections = [(''ui'', [(''is_visible'', ''true'')]),
     (''launcher'', [(''author'', ''ops''), (''version'', ''1.0.0'')])]\<rparr>"
  let ?K = "{(''launcher'', ''version''), (''launcher'', ''label''), (''install'', ''build'')}"
  let ?t = "fs (snd (update_app_version [''src''] ''appM'' ''2.0.0'' sample_env sample_mixed_state))"
  have 1: "fst (update_app_version [''src''] ''appM'' ''2.0.0'' sample_env sample_mixed_state)" by code_simp
  have 2: "config_read (fs sample_mixed_state) (app_conf_path [''src''] ''appM'') = Inr ?c" by code_simp
  have 3: "other_sections ?c = [(''ui'', [(''is_visible'', ''true'')])]" by code_simp
  have 4: "section_value ?c ''launcher'' ''author'' = Some ''ops''" by code_simp
  have 5: "(''launcher'', ''author'') \<notin> ?K" by simp
  from update_app_version_frame [OF 1] obtain c c' where
    c: "config_read (fs sample_mixed_state) (app_conf_path [''src''] ''appM'') = Inr c"
    "config_read ?t (app_conf_path [''src''] ''appM'') = Inr c'"
    "defaults c' = defaults c"
    "other_sections c' = other_sections c"
    "\<forall>s. s \<noteq> ''launcher'' \<and> s \<noteq> ''install'' \<longrightarrow> has_section c' s = has_section c s"
    "\<forall>s k. (s, k) \<notin> ?K \<longrightarrow> section_value c' s k = section_value c s k"
    "section_value c ''launcher'' ''label'' = None \<and> map_of (defaults c) ''label'' = None \<longrightarrow>
        section_value c' ''launcher'' ''label'' = None"
    "lookup ?t (app_conf_path [''src''] ''appM'') = Some (File (config_write c'))"
    "\<forall>l\<in>set (config_write c').
        (\<forall>t. l = Skipped t \<longrightarrow> t = []) \<and> (\<forall>k v. l = Item k v \<longrightarrow> map lower_char k = k) \<and>
        (\<forall>t. l \<noteq> Bad t)"
    by (elim exE conjE) (rule that)
  have e: "c = ?c" using c(1) 2 by simp
  have a: "other_sections c' = [(''ui'', [(''is_visible'', ''true'')])]"
    using c(4) 3 e by simp
  have "section_value c' ''launcher'' ''author'' = section_value c ''launcher'' ''author''"
    using c(6) 5 by (elim allE[of _ "''launcher''"] allE[of _ "''author''"] impE)
  then have b: "section_value c' ''launcher'' ''author'' = Some ''ops''"
    using 4 e by simp
  show ?thesis by (rule exI[of _ c']) (intro conjI c(2) a b c(8))
qed

text \<open>
  A descriptor with two comments and the keys \<open>Is_Visible\<close> and \<open>Author\<close> is
  rewritten without the comments and with the keys in lower case: the text of the
  sections that \<open>update_app_version\<close> does not name is not kept as it was.
\<close>

theorem update_app_version_rewrites_text:
  "lookup (fs sample_mixed_state) (app_conf_path [''src''] ''appM'') =
     Some (File [Skipped ''# packaging'', Header ''ui'', Item ''Is_Visible'' ''true'',
                 Skipped ''; who maintains it'', Header ''launcher'', Item ''Author'' ''ops'',
                 Item ''version'' ''1.0.0'']) \<and>
   fst (update_app_version [''src''] ''appM'' ''2.0.0'' sample_env sample_mixed_state) \<and>
   lookup (fs (snd (update_app_version [''src''] ''appM'' ''2.0.0'' sample_env sample_mixed_state)))
       (app_conf_path [''src''] ''appM'') =
     Some (File [Header ''ui'', Item ''is_visible'' ''true'', Skipped [],
                 Header ''launcher'', Item ''author'' ''ops'', Item ''version'' ''2.0.0'', Skipped [],
                 Header ''install'', Item ''build'' ''202611040930'', Skipped []])"
  by code_simp


end
